theory Spec2Isabelle
  imports Main "HOL-Library.Word" "HOL-Library.AList" "HOL-Library.Multiset"
    "HOL-Library.List_Lexorder"
begin

unbundle bit_operations_syntax

section \<open>Data model\<close>

text \<open>
  A Python \<open>bytes\<close>/\<open>bytearray\<close> object is a list of 8-bit words; a Python \<open>int\<close> is an
  \<open>int\<close>; counters and positions that the code only ever increments from zero are \<open>nat\<close>.
  A \<open>dict\<close> is an association list in insertion order (\<open>AList.update\<close> overwrites in
  place and appends new keys, as a Python dict does).

  Exceptions are values. Both decoders raise \<open>ValueError\<close> with a message; the two
  messages about an index (\<open>decoder.py\<close> lines 32, 90, 97) are \<open>InvalidIndex\<close>, the two
  about an unexpected end of data (lines 142, 154) are \<open>TruncatedData\<close>. The
  remaining constructors are the exceptions Python raises implicitly: \<open>ValueError\<close> from
  \<open>list.index\<close> and \<open>bytearray.append\<close>, \<open>IndexError\<close> from subscripting, \<open>KeyError\<close>
  from a dict lookup, \<open>OverflowError\<close> from \<open>int.to_bytes\<close>.
\<close>

type_synonym byte = "8 word"

datatype error =
  InvalidIndex | TruncatedData | ValueError | IndexError | KeyError | OverflowError

type_synonym ('k, 'v) dict = "('k \<times> 'v) list"

definition dict_get :: "('k, 'v) dict \<Rightarrow> 'k \<Rightarrow> 'v \<Rightarrow> 'v" where
  "dict_get d k dflt = (case map_of d k of None \<Rightarrow> dflt | Some v \<Rightarrow> v)"

definition dict_lookup :: "('k, 'v) dict \<Rightarrow> 'k \<Rightarrow> error + 'v" where
  "dict_lookup d k = (case map_of d k of None \<Rightarrow> Inl KeyError | Some v \<Rightarrow> Inr v)"

definition to_byte :: "int \<Rightarrow> error + byte" where
  "to_byte v = (if 0 \<le> v \<and> v < 256 then Inr (word_of_int v) else Inl ValueError)"

section \<open>encoder.py\<close>

subsection \<open>perform_burrows_wheeler_transform\<close>

text \<open>
  The comparator's loop \<open>for i in range(n)\<close>, over the list of the remaining \<open>i\<close>. The
  subscripts are reduced modulo \<open>n\<close>, so they are in range.
\<close>

fun compare_from :: "byte list \<Rightarrow> nat \<Rightarrow> nat \<Rightarrow> nat list \<Rightarrow> int" where
  "compare_from data a b [] = 0"
| "compare_from data a b (i # rest) =
     (let n = length data;
          diff = uint (data ! ((a + i) mod n)) - uint (data ! ((b + i) mod n))
      in if diff \<noteq> 0 then diff else compare_from data a b rest)"

definition compare_rotations :: "byte list \<Rightarrow> nat \<Rightarrow> nat \<Rightarrow> int" where
  "compare_rotations data a b = compare_from data a b [0..<length data]"

text \<open>
  \<open>indices.sort(key=cmp_to_key(cmp))\<close>: Python's list sort is stable and looks at the
  elements only through the comparator. For a comparator that is a total preorder the
  stable sorted arrangement is unique (lemma \<open>sorted_rotations_unique\<close> below), so the
  sort is modelled by stable insertion from the right. The \<open>except ImportError\<close> branch
  cannot run, \<open>cmp_to_key\<close> being imported when the module is loaded.
\<close>

fun insort_cmp :: "('a \<Rightarrow> 'a \<Rightarrow> int) \<Rightarrow> 'a \<Rightarrow> 'a list \<Rightarrow> 'a list" where
  "insort_cmp cmp x [] = [x]"
| "insort_cmp cmp x (y # ys) =
     (if cmp x y \<le> 0 then x # y # ys else y # insort_cmp cmp x ys)"

definition sort_cmp :: "('a \<Rightarrow> 'a \<Rightarrow> int) \<Rightarrow> 'a list \<Rightarrow> 'a list" where
  "sort_cmp cmp xs = foldr (insort_cmp cmp) xs []"

text \<open>
  The loop \<open>for pos, idx in enumerate(indices)\<close>; \<open>data[-1]\<close> is the last byte. The
  indices are those of \<open>range(n)\<close>, so \<open>data[idx - 1]\<close> is in range.
\<close>

fun bwt_emit :: "byte list \<Rightarrow> (nat \<times> nat) list \<Rightarrow> byte list \<Rightarrow> int \<Rightarrow> byte list \<times> int" where
  "bwt_emit data [] bwt_data original_index = (bwt_data, original_index)"
| "bwt_emit data ((pos, idx) # rest) bwt_data original_index =
     bwt_emit data rest
       (bwt_data @ [if idx > 0 then data ! (idx - 1) else last data])
       (if idx = 0 then int pos else original_index)"

definition sorted_rotations :: "byte list \<Rightarrow> nat list" where
  "sorted_rotations data = sort_cmp (compare_rotations data) [0..<length data]"

definition perform_burrows_wheeler_transform :: "byte list \<Rightarrow> byte list \<times> int" where
  "perform_burrows_wheeler_transform data =
     (if data = [] then ([], 0)
      else bwt_emit data (enumerate 0 (sorted_rotations data)) [] (- 1))"

subsection \<open>perform_move_to_front_transform\<close>

text \<open>\<open>list.index\<close>: the first position of the value, \<open>ValueError\<close> when it is absent.\<close>

fun list_index :: "'a list \<Rightarrow> 'a \<Rightarrow> error + nat" where
  "list_index [] x = Inl ValueError"
| "list_index (y # ys) x =
     (if y = x then Inr 0
      else case list_index ys x of Inl e \<Rightarrow> Inl e | Inr i \<Rightarrow> Inr (Suc i))"

text \<open>\<open>del xs[i]\<close> and \<open>xs.pop(i)\<close>, for \<open>i\<close> in range.\<close>

definition list_del :: "'a list \<Rightarrow> nat \<Rightarrow> 'a list" where
  "list_del xs i = take i xs @ drop (Suc i) xs"

text \<open>\<open>list(range(256))\<close>; its entries are byte values.\<close>

definition initial_alphabet :: "byte list" where
  "initial_alphabet = map of_nat [0..<256]"

fun mtf_loop :: "byte list \<Rightarrow> byte list \<Rightarrow> int list \<Rightarrow> error + int list" where
  "mtf_loop [] alphabet result = Inr result"
| "mtf_loop (b # data) alphabet result =
     (case list_index alphabet b of
        Inl e \<Rightarrow> Inl e
      | Inr idx \<Rightarrow> mtf_loop data (b # list_del alphabet idx) (result @ [int idx]))"

definition perform_move_to_front_transform :: "byte list \<Rightarrow> error + int list" where
  "perform_move_to_front_transform data = mtf_loop data initial_alphabet []"

subsection \<open>perform_run_length_encoding\<close>

function count_run :: "int list \<Rightarrow> nat \<Rightarrow> int \<Rightarrow> nat \<Rightarrow> nat" where
  "count_run data i current cnt =
     (if i + cnt < length data \<and> data ! (i + cnt) = current \<and> cnt < 127
      then count_run data i current (cnt + 1) else cnt)"
  by pat_completeness auto
termination
  by (relation "measure (\<lambda>(data, i, current, cnt). 127 - cnt)") auto

declare count_run.simps [simp del]

function raw_scan :: "int list \<Rightarrow> nat \<Rightarrow> nat \<Rightarrow> byte list \<Rightarrow> error + (nat \<times> byte list)" where
  "raw_scan data i run_length raw_data =
     (if i + run_length < length data \<and> run_length < 127 then
        if i + run_length + 2 < length data
           \<and> data ! (i + run_length) = data ! (i + run_length + 1)
           \<and> data ! (i + run_length + 1) = data ! (i + run_length + 2)
        then Inr (run_length, raw_data)
        else (case to_byte (data ! (i + run_length)) of
                Inl e \<Rightarrow> Inl e
              | Inr b \<Rightarrow> raw_scan data i (run_length + 1) (raw_data @ [b]))
      else Inr (run_length, raw_data))"
  by pat_completeness auto
termination
  by (relation "measure (\<lambda>(data, i, run_length, raw_data). 127 - run_length)") auto

declare raw_scan.simps [simp del]

function rle_loop :: "int list \<Rightarrow> nat \<Rightarrow> byte list \<Rightarrow> error + byte list" where
  "rle_loop data i encoded =
     (if i < length data then
        let current = data ! i;
            cnt = count_run data i current 1
        in if cnt > 2 then
             (case to_byte current of
                Inl e \<Rightarrow> Inl e
              | Inr b \<Rightarrow> rle_loop data (i + cnt) (encoded @ [0x80 OR of_nat cnt, b]))
           else
             (case raw_scan data i 0 [] of
                Inl e \<Rightarrow> Inl e
              | Inr (run_length, raw_data) \<Rightarrow>
                  rle_loop data (i + run_length) (encoded @ [of_nat run_length] @ raw_data))
      else Inr encoded)"
  by pat_completeness auto
termination
proof (relation "measure (\<lambda>(data, i, encoded). length data - i)", goal_cases)
  case 1
  show ?case by simp
next
  case (2 data i encoded current cnt b)
  then show ?case by simp
next
  case (3 data i encoded current cnt p run_length raw_data)
  have ge: "r \<le> r'" if "raw_scan d j r raw = Inr (r', raw')" for d j r raw r' raw'
    using that
  proof (induction d j r raw rule: raw_scan.induct)
    case (1 d j r raw)
    show ?case
    proof (cases "j + r < length d \<and> r < 127")
      case False
      with "1.prems" show ?thesis by (subst (asm) raw_scan.simps) auto
    next
      case inrange: True
      show ?thesis
      proof (cases "j + r + 2 < length d \<and> d ! (j + r) = d ! (j + r + 1)
                      \<and> d ! (j + r + 1) = d ! (j + r + 2)")
        case True
        with inrange "1.prems" show ?thesis by (subst (asm) raw_scan.simps) auto
      next
        case False
        with inrange "1.prems" obtain b where b: "to_byte (d ! (j + r)) = Inr b"
          and rec: "raw_scan d j (r + 1) (raw @ [b]) = Inr (r', raw')"
          by (subst (asm) raw_scan.simps) (auto split: sum.splits)
        from "1.IH" [OF inrange False b rec] show ?thesis by simp
      qed
    qed
  qed
  have mono: "c \<le> count_run d j v c" for d j v c
    by (induction d j v c rule: count_run.induct)
       (subst count_run.simps, auto)
  have short: "\<not> (i + 2 < length data \<and> data ! i = data ! (i + 1) \<and> data ! (i + 1) = data ! (i + 2))"
  proof
    assume run: "i + 2 < length data \<and> data ! i = data ! (i + 1) \<and> data ! (i + 1) = data ! (i + 2)"
    then have "count_run data i (data ! i) 1 = count_run data i (data ! i) 2"
      by (subst count_run.simps) (simp add: numeral_2_eq_2)
    also from run have "\<dots> = count_run data i (data ! i) 3"
      by (subst count_run.simps) simp
    finally have "3 \<le> count_run data i (data ! i) 1"
      using mono [of 3 data i "data ! i"] by simp
    with 3 show False by simp
  qed
  from 3 have scan: "raw_scan data i 0 [] = Inr (run_length, raw_data)" by simp
  from 3 have "i < length data" by simp
  with scan short obtain b where "raw_scan data i 1 [b] = Inr (run_length, raw_data)"
    by (subst (asm) raw_scan.simps) (auto split: sum.splits if_splits)
  from ge [OF this] have "1 \<le> run_length" .
  with \<open>i < length data\<close> show ?case by simp
qed

declare rle_loop.simps [simp del]

definition perform_run_length_encoding :: "int list \<Rightarrow> error + byte list" where
  "perform_run_length_encoding data = (if data = [] then Inr [] else rle_loop data 0 [])"

subsection \<open>compress_file, without the file system\<close>

text \<open>\<open>int.to_bytes(4, 'big')\<close>: \<open>OverflowError\<close> for a negative or too large value.\<close>

definition to_bytes4 :: "int \<Rightarrow> error + byte list" where
  "to_bytes4 v =
     (if 0 \<le> v \<and> v < 2 ^ 32
      then Inr [word_of_int (v div 2 ^ 24), word_of_int (v div 2 ^ 16),
                word_of_int (v div 2 ^ 8), word_of_int v]
      else Inl OverflowError)"

text \<open>
  The bytes read from the input file go in, the bytes written to the output file come
  out; \<open>file_size\<close> is the length of what was read. An exception ends the program
  (\<open>sys.exit(1)\<close>) without an output file.
\<close>

definition compress_file :: "byte list \<Rightarrow> error + byte list" where
  "compress_file data =
     (if length data < 512 then Inr (replicate 4 0 @ data)
      else
        let (bwt_data, index) = perform_burrows_wheeler_transform data in
        case perform_move_to_front_transform bwt_data of
          Inl e \<Rightarrow> Inl e
        | Inr mtf_data \<Rightarrow>
           (case perform_run_length_encoding mtf_data of
              Inl e \<Rightarrow> Inl e
            | Inr rle_data \<Rightarrow>
               (let compressed_size = length rle_data + 4 in
                if compressed_size \<ge> length data then Inr (replicate 4 0 @ data)
                else case to_bytes4 index of
                       Inl e \<Rightarrow> Inl e
                     | Inr header \<Rightarrow> Inr (header @ rle_data))))"

section \<open>decoder.py\<close>

subsection \<open>reverse_burrows_wheeler_transform\<close>

text \<open>\<open>for byte in transformed_data: char_counts[byte] = char_counts.get(byte, 0) + 1\<close>\<close>

fun count_chars :: "byte list \<Rightarrow> (byte, nat) dict \<Rightarrow> (byte, nat) dict" where
  "count_chars [] char_counts = char_counts"
| "count_chars (b # rest) char_counts =
     count_chars rest (AList.update b (dict_get char_counts b 0 + 1) char_counts)"

text \<open>The loop over \<open>sorted(char_counts)\<close>, the keys in ascending order.\<close>

fun cumulate :: "byte list \<Rightarrow> (byte, nat) dict \<Rightarrow> (byte, nat) dict \<Rightarrow> nat
    \<Rightarrow> error + (byte, nat) dict" where
  "cumulate [] char_counts cumulative_counts tot = Inr cumulative_counts"
| "cumulate (b # keys) char_counts cumulative_counts tot =
     (case dict_lookup char_counts b of
        Inl e \<Rightarrow> Inl e
      | Inr c \<Rightarrow> cumulate keys char_counts (AList.update b tot cumulative_counts) (tot + c))"

fun rank_chars :: "byte list \<Rightarrow> (byte, nat) dict \<Rightarrow> (byte, nat) dict \<Rightarrow> nat list
    \<Rightarrow> error + nat list" where
  "rank_chars [] cumulative_counts char_ranks transformation_vector = Inr transformation_vector"
| "rank_chars (b # rest) cumulative_counts char_ranks transformation_vector =
     (let rank = dict_get char_ranks b 0 in
      case dict_lookup cumulative_counts b of
        Inl e \<Rightarrow> Inl e
      | Inr c \<Rightarrow> rank_chars rest cumulative_counts (AList.update b (rank + 1) char_ranks)
                  (transformation_vector @ [c + rank]))"

text \<open>
  \<open>for i in range(n - 1, -1, -1)\<close>: the first argument counts the iterations left, so the
  position written is one less. Both subscripts raise \<open>IndexError\<close> out of range.
\<close>

fun rebuild :: "nat \<Rightarrow> byte list \<Rightarrow> nat list \<Rightarrow> nat \<Rightarrow> byte list \<Rightarrow> error + byte list" where
  "rebuild 0 transformed_data transformation_vector current_pos result = Inr result"
| "rebuild (Suc i) transformed_data transformation_vector current_pos result =
     (if current_pos < length transformed_data \<and> current_pos < length transformation_vector
      then rebuild i transformed_data transformation_vector
             (transformation_vector ! current_pos)
             (result[i := transformed_data ! current_pos])
      else Inl IndexError)"

definition reverse_burrows_wheeler_transform :: "byte list \<Rightarrow> int \<Rightarrow> error + byte list" where
  "reverse_burrows_wheeler_transform transformed_data original_index =
     (if transformed_data = [] then Inr []
      else
        let n = length transformed_data in
        if original_index < 0 \<or> original_index \<ge> int n then Inl InvalidIndex
        else
          let char_counts = count_chars transformed_data [] in
          case cumulate (sort (map fst char_counts)) char_counts [] 0 of
            Inl e \<Rightarrow> Inl e
          | Inr cumulative_counts \<Rightarrow>
             (case rank_chars transformed_data cumulative_counts [] [] of
                Inl e \<Rightarrow> Inl e
              | Inr transformation_vector \<Rightarrow>
                  rebuild n transformed_data transformation_vector (nat original_index)
                    (replicate n 0)))"

subsection \<open>reverse_move_to_front_transform\<close>

fun unmtf_loop :: "int list \<Rightarrow> byte list \<Rightarrow> byte list \<Rightarrow> error + byte list" where
  "unmtf_loop [] alphabet result = Inr result"
| "unmtf_loop (idx # rest) alphabet result =
     (if idx \<ge> int (length alphabet) then Inl InvalidIndex
      else
        let char = alphabet ! nat idx in
        unmtf_loop rest
          (if idx \<noteq> 0 then char # list_del alphabet (nat idx) else alphabet)
          (result @ [char]))"

definition reverse_move_to_front_transform :: "int list \<Rightarrow> error + byte list" where
  "reverse_move_to_front_transform encoded_indices =
     (if encoded_indices = [] then Inr []
      else if filter (\<lambda>idx. idx < 0 \<or> idx \<ge> 256) encoded_indices \<noteq> [] then Inl InvalidIndex
      else unmtf_loop encoded_indices initial_alphabet [])"

subsection \<open>decode_run_length_encoding\<close>

function unrle_loop :: "byte list \<Rightarrow> nat \<Rightarrow> int list \<Rightarrow> error + int list" where
  "unrle_loop compressed_data position decoded_values =
     (if position < length compressed_data then
        let header = compressed_data ! position;
            position = position + 1
        in if header AND 0x80 \<noteq> 0 then
             let run_length = unat (header AND 0x7F) in
             if position \<ge> length compressed_data then Inl TruncatedData
             else
               let val = compressed_data ! position in
               unrle_loop compressed_data (position + 1)
                 (decoded_values @ replicate run_length (uint val))
           else
             let raw_length = unat header in
             if position + raw_length > length compressed_data then Inl TruncatedData
             else
               let raw_data = take raw_length (drop position compressed_data) in
               unrle_loop compressed_data (position + raw_length)
                 (decoded_values @ map uint raw_data)
      else Inr decoded_values)"
  by pat_completeness auto
termination
  by (relation "measure (\<lambda>(compressed_data, position, decoded_values).
        length compressed_data - position)") auto

declare unrle_loop.simps [simp del]

definition decode_run_length_encoding :: "byte list \<Rightarrow> error + int list" where
  "decode_run_length_encoding compressed_data =
     (if compressed_data = [] then Inr [] else unrle_loop compressed_data 0 [])"

subsection \<open>decompress_file, without the file system\<close>

text \<open>\<open>int.from_bytes(header, 'big')\<close>\<close>

definition from_bytes :: "byte list \<Rightarrow> int" where
  "from_bytes header = foldl (\<lambda>acc b. acc * 256 + uint b) 0 header"

definition decompress_file :: "byte list \<Rightarrow> error + byte list" where
  "decompress_file input =
     (let header = take 4 input;
          compressed_data = drop 4 input
      in if header = [0, 0, 0, 0] then Inr compressed_data
         else
           let original_index = from_bytes header in
           case decode_run_length_encoding compressed_data of
             Inl e \<Rightarrow> Inl e
           | Inr mtf_indices \<Rightarrow>
              (case reverse_move_to_front_transform mtf_indices of
                 Inl e \<Rightarrow> Inl e
               | Inr bwt_data \<Rightarrow> reverse_burrows_wheeler_transform bwt_data original_index))"

section \<open>Run records\<close>

text \<open>
  The run-coded stream as the format describes it: a sequence of records, each a repeat
  record (a length below 128 and one value byte) or a raw record (fewer than 128 literal
  bytes). \<open>frame\<close> is the byte layout of a record, \<open>expand\<close> the values it stands
  for. A stream ends mid-record when it is left with a repeat header and no value byte,
  or with a raw header that announces more literals than remain.
\<close>

datatype run_record = Repeat nat byte | Raw "byte list"

fun frame :: "run_record \<Rightarrow> byte list" where
  "frame (Repeat n v) = [0x80 OR of_nat n, v]"
| "frame (Raw bs) = of_nat (length bs) # bs"

fun expand :: "run_record \<Rightarrow> int list" where
  "expand (Repeat n v) = replicate n (uint v)"
| "expand (Raw bs) = map uint bs"

fun well_formed :: "run_record \<Rightarrow> bool" where
  "well_formed (Repeat n v) = (n < 128)"
| "well_formed (Raw bs) = (length bs < 128)"

definition ends_mid_record :: "byte list \<Rightarrow> bool" where
  "ends_mid_record rem =
     (case rem of
        [] \<Rightarrow> False
      | h # rest \<Rightarrow> if h AND 0x80 \<noteq> 0 then rest = [] else length rest < unat h)"

section \<open>Auxiliary notions for the proofs\<close>

text \<open>A result with a list put in front of it; an error stays.\<close>

definition prepend :: "'a list \<Rightarrow> error + 'a list \<Rightarrow> error + 'a list" where
  "prepend xs r = (case r of Inl e \<Rightarrow> Inl e | Inr ys \<Rightarrow> Inr (xs @ ys))"

text \<open>The facts about header bytes that the codec relies on, for the byte of value \<open>n\<close>.\<close>

definition hdr_facts :: "nat \<Rightarrow> bool" where
  "hdr_facts n = (let h = (of_nat n :: byte) in
      ((h AND 0x80 = 0) = (n < 128))
    \<and> unat (h AND 0x7F) = n mod 128
    \<and> (h AND 0x80 \<noteq> 0 \<longrightarrow> 0x80 OR of_nat (unat (h AND 0x7F)) = h)
    \<and> (n < 128 \<longrightarrow> (0x80 OR h) AND 0x80 \<noteq> 0 \<and> unat ((0x80 OR h) AND 0x7F) = n))"

text \<open>
  The position that the last-to-first mapping of the block-sort inverse assigns to
  position \<open>p\<close> of the transformed buffer: the number of entries smaller than the entry
  at \<open>p\<close>, plus the number of earlier entries equal to it.
\<close>

definition lf_index :: "'a::linorder list \<Rightarrow> nat \<Rightarrow> nat" where
  "lf_index T p = length (filter (\<lambda>x. x < T ! p) T) + count_list (take p T) (T ! p)"

text \<open>
  The order that makes the rotation sort reproducible: rotation \<open>a\<close> comes before
  rotation \<open>b\<close> when the comparator puts it first, or when the comparator finds them
  equal and \<open>a\<close> is the smaller index.
\<close>

definition rotation_before :: "byte list \<Rightarrow> nat \<Rightarrow> nat \<Rightarrow> bool" where
  "rotation_before data a b =
     (compare_rotations data a b < 0 \<or> (compare_rotations data a b = 0 \<and> a < b))"

section \<open>The move-to-front transform and its inverse\<close>

lemma list_index_mem:
  "x \<in> set xs \<Longrightarrow> \<exists>i. list_index xs x = Inr i \<and> i < length xs \<and> xs ! i = x"
  by (induction xs) auto

lemma length_initial_alphabet: "length initial_alphabet = 256"
  by (simp add: initial_alphabet_def)

lemma set_initial_alphabet: "set initial_alphabet = UNIV"
proof -
  have "b \<in> set initial_alphabet" for b :: byte
  proof -
    have "unat b < 256" using unsigned_less [of b] by simp
    then have "of_nat (unat b) \<in> set initial_alphabet"
      unfolding initial_alphabet_def set_map set_upt by (intro imageI) simp
    then show ?thesis by simp
  qed
  then show ?thesis by auto
qed

lemma length_list_del: "i < length xs \<Longrightarrow> length (list_del xs i) = length xs - 1"
  by (auto simp: list_del_def)

lemma front_list_del: "i < length xs \<Longrightarrow> set (xs ! i # list_del xs i) = set xs"
proof -
  assume i: "i < length xs"
  then have "xs = take i xs @ xs ! i # drop (Suc i) xs"
    by (simp add: id_take_nth_drop)
  then have "set xs = set (take i xs @ xs ! i # drop (Suc i) xs)" by simp
  then show ?thesis by (auto simp: list_del_def)
qed

lemma front_list_del_0: "xs \<noteq> [] \<Longrightarrow> xs ! 0 # list_del xs 0 = xs"
  by (cases xs) (auto simp: list_del_def)

lemma mtf_loop_inverse:
  "set alphabet = UNIV \<Longrightarrow>
   \<exists>ranks. mtf_loop data alphabet result = Inr (result @ ranks)
     \<and> length ranks = length data
     \<and> (\<forall>k\<in>set ranks. 0 \<le> k \<and> k < int (length alphabet))
     \<and> (\<forall>acc. unmtf_loop ranks alphabet acc = Inr (acc @ data))"
proof (induction data arbitrary: alphabet result)
  case Nil
  show ?case by simp
next
  case (Cons b data)
  from Cons.prems have "b \<in> set alphabet" by simp
  from list_index_mem [OF this] obtain i where
    i: "list_index alphabet b = Inr i" "i < length alphabet" "alphabet ! i = b"
    by blast
  let ?alphabet' = "b # list_del alphabet i"
  from i Cons.prems have full: "set ?alphabet' = UNIV"
    using front_list_del [of i alphabet] by simp
  from i have len: "length ?alphabet' = length alphabet"
    by (simp add: length_list_del)
  from Cons.IH [OF full, of "result @ [int i]"] obtain ranks where
    ranks: "mtf_loop data ?alphabet' (result @ [int i]) = Inr (result @ [int i] @ ranks)"
      "length ranks = length data"
      "\<forall>k\<in>set ranks. 0 \<le> k \<and> k < int (length ?alphabet')"
      "\<forall>acc. unmtf_loop ranks ?alphabet' acc = Inr (acc @ data)"
    by auto
  have step: "(if int i \<noteq> 0 then alphabet ! nat (int i) # list_del alphabet (nat (int i)) else alphabet)
      = ?alphabet'"
    using i front_list_del_0 [of alphabet] by auto
  have "unmtf_loop (int i # ranks) alphabet acc = Inr (acc @ b # data)" for acc
  proof -
    have "unmtf_loop (int i # ranks) alphabet acc = unmtf_loop ranks ?alphabet' (acc @ [b])"
      using i(2,3) by (simp only: unmtf_loop.simps Let_def step) simp
    with ranks(4) show ?thesis by simp
  qed
  with i ranks len show ?case
    by (intro exI [of _ "int i # ranks"]) auto
qed

lemma perform_mtf_inverse:
  "\<exists>ranks. perform_move_to_front_transform data = Inr ranks
     \<and> length ranks = length data
     \<and> (\<forall>k\<in>set ranks. 0 \<le> k \<and> k < 256)
     \<and> reverse_move_to_front_transform ranks = Inr data"
proof -
  from mtf_loop_inverse [OF set_initial_alphabet, of data "[]"] obtain ranks where
    ranks: "mtf_loop data initial_alphabet [] = Inr ranks"
      "length ranks = length data"
      "\<forall>k\<in>set ranks. 0 \<le> k \<and> k < 256"
      "\<forall>acc. unmtf_loop ranks initial_alphabet acc = Inr (acc @ data)"
    by (auto simp: length_initial_alphabet)
  from ranks(3) have "filter (\<lambda>idx. idx < 0 \<or> idx \<ge> 256) ranks = []"
    by (auto simp: filter_empty_conv)
  with ranks have "reverse_move_to_front_transform ranks = Inr data"
    by (auto simp: reverse_move_to_front_transform_def)
  with ranks show ?thesis
    by (auto simp: perform_move_to_front_transform_def)
qed

section \<open>The run decoder\<close>

lemma prepend_simps [simp]:
  "prepend xs (Inl e) = Inl e"
  "prepend xs (Inr ys) = Inr (xs @ ys)"
  "prepend [] r = r"
  "prepend xs (prepend ys r) = prepend (xs @ ys) r"
  by (auto simp: prepend_def split: sum.splits)

text \<open>One iteration of the decoder's loop, case by case.\<close>

lemma unrle_done: "\<not> p < length cd \<Longrightarrow> unrle_loop cd p acc = Inr acc"
  by (subst unrle_loop.simps) simp

lemma unrle_run_trunc:
  "p < length cd \<Longrightarrow> cd ! p AND 0x80 \<noteq> 0 \<Longrightarrow> length cd \<le> p + 1
   \<Longrightarrow> unrle_loop cd p acc = Inl TruncatedData"
  by (subst unrle_loop.simps) (simp add: Let_def)

lemma unrle_run:
  "p + 1 < length cd \<Longrightarrow> cd ! p AND 0x80 \<noteq> 0
   \<Longrightarrow> unrle_loop cd p acc
       = unrle_loop cd (p + 2) (acc @ replicate (unat (cd ! p AND 0x7F)) (uint (cd ! (p + 1))))"
  by (subst unrle_loop.simps) (simp add: Let_def)

lemma unrle_raw_trunc:
  "p < length cd \<Longrightarrow> cd ! p AND 0x80 = 0 \<Longrightarrow> length cd < p + 1 + unat (cd ! p)
   \<Longrightarrow> unrle_loop cd p acc = Inl TruncatedData"
  by (subst unrle_loop.simps) (simp add: Let_def)

lemma unrle_raw:
  "p < length cd \<Longrightarrow> cd ! p AND 0x80 = 0 \<Longrightarrow> p + 1 + unat (cd ! p) \<le> length cd
   \<Longrightarrow> unrle_loop cd p acc
       = unrle_loop cd (p + 1 + unat (cd ! p))
           (acc @ map uint (take (unat (cd ! p)) (drop (p + 1) cd)))"
  by (subst unrle_loop.simps) (simp add: Let_def)

lemma unrle_cases [case_names finished run_trunc run raw_trunc raw]:
  fixes cd :: "byte list" and p :: nat
  obtains "\<not> p < length cd"
  | "p < length cd" "cd ! p AND 0x80 \<noteq> 0" "length cd \<le> p + 1"
  | "p + 1 < length cd" "cd ! p AND 0x80 \<noteq> 0"
  | "p < length cd" "cd ! p AND 0x80 = 0" "length cd < p + 1 + unat (cd ! p)"
  | "p < length cd" "cd ! p AND 0x80 = 0" "p + 1 + unat (cd ! p) \<le> length cd"
  by (cases "p < length cd"; cases "cd ! p AND 0x80 = 0"; cases "length cd \<le> p + 1";
      cases "length cd < p + 1 + unat (cd ! p)") auto

lemma unrle_loop_acc:
  "unrle_loop cd p (pre @ acc) = prepend pre (unrle_loop cd p acc)"
proof (induction "length cd - p" arbitrary: p acc rule: less_induct)
  case less
  show ?case
  proof (cases rule: unrle_cases [where cd = cd and p = p])
    case finished
    then show ?thesis by (simp add: unrle_done)
  next
    case run_trunc
    then show ?thesis by (simp add: unrle_run_trunc)
  next
    case run
    then have "length cd - (p + 2) < length cd - p" by simp
    from less [OF this] run show ?thesis by (simp add: unrle_run)
  next
    case raw_trunc
    then show ?thesis by (simp add: unrle_raw_trunc)
  next
    case raw
    then have "length cd - (p + 1 + unat (cd ! p)) < length cd - p" by simp
    from less [OF this] raw show ?thesis by (simp add: unrle_raw)
  qed
qed

lemma unrle_loop_drop:
  "unrle_loop (drop p cd) q acc = unrle_loop cd (p + q) acc"
proof (induction "length cd - (p + q)" arbitrary: q acc rule: less_induct)
  case less
  let ?d = "drop p cd"
  have nth: "?d ! k = cd ! (p + k)" if "p + k < length cd" for k
    using that by simp
  show ?case
  proof (cases rule: unrle_cases [where cd = cd and p = "p + q"])
    case finished
    then show ?thesis by (simp add: unrle_done)
  next
    case run_trunc
    then show ?thesis
      using unrle_run_trunc [of q ?d acc] unrle_run_trunc [of "p + q" cd acc] by simp
  next
    case run
    then have "length cd - (p + (q + 2)) < length cd - (p + q)" by simp
    from less [OF this] run show ?thesis
      using unrle_run [of q ?d acc] unrle_run [of "p + q" cd acc]
      by (simp add: add.assoc)
  next
    case raw_trunc
    then show ?thesis
      using unrle_raw_trunc [of q ?d acc] unrle_raw_trunc [of "p + q" cd acc] by simp
  next
    case raw
    then have "length cd - (p + (q + 1 + unat (cd ! (p + q)))) < length cd - (p + q)" by simp
    from less [OF this] raw show ?thesis
      using unrle_raw [of q ?d acc] unrle_raw [of "p + q" cd acc]
      by (simp add: add.assoc add.commute add.left_commute)
  qed
qed

subsection \<open>Header bytes\<close>

lemma hdr_facts_all: "\<forall>n\<in>set [0..<256]. hdr_facts n"
  by code_simp

lemma hdr_facts_byte: "hdr_facts (unat (h :: byte))"
proof -
  have "unat h < 256" using unsigned_less [of h] by simp
  with hdr_facts_all show ?thesis by simp
qed

lemma hdr_top_clear: "((h :: byte) AND 0x80 = 0) = (unat h < 128)"
  using hdr_facts_byte [of h] by (simp add: hdr_facts_def Let_def)

lemma hdr_low: "unat ((h :: byte) AND 0x7F) < 128"
  using hdr_facts_byte [of h] by (simp add: hdr_facts_def Let_def)

lemma hdr_repeat_inv: "(h :: byte) AND 0x80 \<noteq> 0 \<Longrightarrow> 0x80 OR (h AND 0x7F) = h"
  using hdr_facts_byte [of h] by (simp add: hdr_facts_def Let_def)

lemma unat_of_nat_byte: "n < 256 \<Longrightarrow> unat (of_nat n :: byte) = n"
  by (simp add: unat_of_nat)

lemma hdr_repeat:
  assumes "n < 128"
  shows "(0x80 OR of_nat n :: byte) AND 0x80 \<noteq> 0"
    and "unat ((0x80 OR of_nat n :: byte) AND 0x7F) = n"
proof -
  from assms have n: "unat (of_nat n :: byte) = n" by (simp add: unat_of_nat_byte)
  from hdr_facts_byte [of "of_nat n :: byte"] assms
  show "(0x80 OR of_nat n :: byte) AND 0x80 \<noteq> 0"
    and "unat ((0x80 OR of_nat n :: byte) AND 0x7F) = n"
    unfolding n by (simp_all add: hdr_facts_def Let_def)
qed

lemma hdr_raw:
  assumes "n < 128"
  shows "(of_nat n :: byte) AND 0x80 = 0" and "unat (of_nat n :: byte) = n"
proof -
  from assms show n: "unat (of_nat n :: byte) = n" by (simp add: unat_of_nat_byte)
  with assms show "(of_nat n :: byte) AND 0x80 = 0" by (simp add: hdr_top_clear)
qed

subsection \<open>The decoder, record by record\<close>

lemma decode_run_length_encoding_loop:
  "decode_run_length_encoding cd = unrle_loop cd 0 []"
  by (simp add: decode_run_length_encoding_def unrle_done)

lemma unrle_from:
  "p \<le> length cd \<Longrightarrow> unrle_loop cd p acc = prepend acc (unrle_loop (drop p cd) 0 [])"
  using unrle_loop_drop [of p cd 0 "[]"] unrle_loop_acc [of cd p acc "[]"] by simp

lemma unrle_repeat_record:
  assumes "h AND 0x80 \<noteq> 0"
  shows "unrle_loop (h # v # rest) 0 []
    = prepend (replicate (unat (h AND 0x7F)) (uint v)) (unrle_loop rest 0 [])"
proof -
  have "unrle_loop (h # v # rest) 0 []
      = unrle_loop (h # v # rest) (0 + 2)
          ([] @ replicate (unat ((h # v # rest) ! 0 AND 0x7F)) (uint ((h # v # rest) ! (0 + 1))))"
    by (rule unrle_run) (use assms in simp_all)
  also have "\<dots> = unrle_loop (h # v # rest) 2 (replicate (unat (h AND 0x7F)) (uint v))"
    by (simp add: numeral_2_eq_2)
  also have "\<dots> = prepend (replicate (unat (h AND 0x7F)) (uint v)) (unrle_loop rest 0 [])"
    using unrle_from [of 2 "h # v # rest"] by simp
  finally show ?thesis .
qed

lemma unrle_raw_record:
  assumes "h AND 0x80 = 0" and "unat h \<le> length rest"
  shows "unrle_loop (h # rest) 0 []
    = prepend (map uint (take (unat h) rest)) (unrle_loop (drop (unat h) rest) 0 [])"
proof -
  have "unrle_loop (h # rest) 0 []
      = unrle_loop (h # rest) (1 + unat h) (map uint (take (unat h) rest))"
    using assms unrle_raw [of 0 "h # rest" "[]"] by simp
  also have "\<dots> = prepend (map uint (take (unat h) rest)) (unrle_loop (drop (unat h) rest) 0 [])"
    using assms unrle_from [of "1 + unat h" "h # rest"] by simp
  finally show ?thesis .
qed

lemma unrle_frame:
  assumes "well_formed r"
  shows "unrle_loop (frame r @ rest) 0 [] = prepend (expand r) (unrle_loop rest 0 [])"
proof (cases r)
  case (Repeat n v)
  with assms have "n < 128" by simp
  from hdr_repeat [OF this] Repeat show ?thesis
    by (simp add: unrle_repeat_record)
next
  case (Raw bs)
  with assms have "length bs < 128" by simp
  from hdr_raw [OF this] Raw show ?thesis
    by (simp add: unrle_raw_record)
qed

lemma unrle_frames:
  "list_all well_formed recs \<Longrightarrow>
   unrle_loop (concat (map frame recs) @ rest) 0 []
     = prepend (concat (map expand recs)) (unrle_loop rest 0 [])"
  by (induction recs) (simp_all add: unrle_frame)

lemma unrle_mid_record:
  assumes "ends_mid_record rem"
  shows "unrle_loop rem 0 [] = Inl TruncatedData"
proof (cases rem)
  case Nil
  with assms show ?thesis by (simp add: ends_mid_record_def)
next
  case (Cons h rest)
  show ?thesis
  proof (cases "h AND 0x80 = 0")
    case True
    with assms Cons show ?thesis
      using unrle_raw_trunc [of 0 rem "[]"] by (simp add: ends_mid_record_def)
  next
    case False
    with assms Cons show ?thesis
      using unrle_run_trunc [of 0 rem "[]"] by (simp add: ends_mid_record_def)
  qed
qed

lemma records_exist:
  "\<exists>recs rem. list_all well_formed recs \<and> cd = concat (map frame recs) @ rem
     \<and> (rem = [] \<or> ends_mid_record rem)"
proof (induction "length cd" arbitrary: cd rule: less_induct)
  case less
  show ?case
  proof (cases cd)
    case Nil
    then show ?thesis by (intro exI [of _ "[]"]) simp
  next
    case (Cons h rest)
    show ?thesis
    proof (cases "ends_mid_record cd")
      case True
      then show ?thesis by (intro exI [of _ "[]"] exI [of _ cd]) simp
    next
      case whole: False
      show ?thesis
      proof (cases "h AND 0x80 = 0")
        case True
        with whole Cons have fits: "unat h \<le> length rest"
          by (simp add: ends_mid_record_def)
        let ?r = "Raw (take (unat h) rest)"
        from True fits have r: "well_formed ?r" "frame ?r = h # take (unat h) rest"
          by (simp_all add: hdr_top_clear min_absorb2)
        from Cons have "length (drop (unat h) rest) < length cd" by simp
        from less [OF this] obtain recs rem where
          "list_all well_formed recs" "drop (unat h) rest = concat (map frame recs) @ rem"
          "rem = [] \<or> ends_mid_record rem" by blast
        with r Cons have "list_all well_formed (?r # recs)"
          "cd = concat (map frame (?r # recs)) @ rem"
          by (simp_all del: frame.simps well_formed.simps flip: append_assoc)
             (metis append_take_drop_id append_assoc)
        with \<open>rem = [] \<or> ends_mid_record rem\<close> show ?thesis by blast
      next
        case False
        with whole Cons obtain v rest' where rest: "rest = v # rest'"
          by (cases rest) (simp_all add: ends_mid_record_def)
        let ?r = "Repeat (unat (h AND 0x7F)) v"
        from False have r: "well_formed ?r" "frame ?r = [h, v]"
          by (simp_all add: hdr_low hdr_repeat_inv)
        from Cons rest have "length rest' < length cd" by simp
        from less [OF this] obtain recs rem where
          "list_all well_formed recs" "rest' = concat (map frame recs) @ rem"
          "rem = [] \<or> ends_mid_record rem" by blast
        with r Cons rest have "list_all well_formed (?r # recs)"
          "cd = concat (map frame (?r # recs)) @ rem"
          by (simp_all del: frame.simps well_formed.simps)
        with \<open>rem = [] \<or> ends_mid_record rem\<close> show ?thesis by blast
      qed
    qed
  qed
qed

subsection \<open>What the decoder returns\<close>

lemma decode_frames:
  "list_all well_formed recs \<Longrightarrow>
   decode_run_length_encoding (concat (map frame recs)) = Inr (concat (map expand recs))"
  using unrle_frames [of recs "[]"]
  by (simp add: decode_run_length_encoding_loop unrle_done)

lemma decode_frames_truncated:
  "list_all well_formed recs \<Longrightarrow> ends_mid_record rem \<Longrightarrow>
   decode_run_length_encoding (concat (map frame recs) @ rem) = Inl TruncatedData"
  using unrle_frames [of recs rem]
  by (simp add: decode_run_length_encoding_loop unrle_mid_record)

lemma uint_byte_range: "0 \<le> uint (b :: byte) \<and> uint b < 256"
  using uint_bounded [of b] by simp

lemma expand_range: "x \<in> set (expand r) \<Longrightarrow> 0 \<le> x \<and> x < 256"
  using uint_byte_range by (cases r) (auto split: if_splits)

lemma decode_range:
  assumes "decode_run_length_encoding cd = Inr out"
  shows "\<forall>x\<in>set out. 0 \<le> x \<and> x < 256"
proof -
  from records_exist [of cd] obtain recs rem where
    recs: "list_all well_formed recs" "cd = concat (map frame recs) @ rem"
      "rem = [] \<or> ends_mid_record rem" by blast
  from assms recs have "rem = []"
    using decode_frames_truncated [of recs rem] by auto
  with assms recs have "out = concat (map expand recs)"
    using decode_frames [of recs] by simp
  then show ?thesis by (auto dest: expand_range)
qed

lemma unmtf_loop_total:
  "length alphabet = 256 \<Longrightarrow> \<forall>k\<in>set ks. 0 \<le> k \<and> k < 256
   \<Longrightarrow> \<exists>bs. unmtf_loop ks alphabet acc = Inr bs"
proof (induction ks arbitrary: alphabet acc)
  case Nil
  show ?case by simp
next
  case (Cons k ks)
  from Cons.prems have k: "0 \<le> k" "k < 256" by simp_all
  let ?alphabet' = "if k \<noteq> 0 then alphabet ! nat k # list_del alphabet (nat k) else alphabet"
  from k Cons.prems(1) have "length ?alphabet' = 256"
    by (simp add: length_list_del)
  from Cons.IH [OF this, of "acc @ [alphabet ! nat k]"] Cons.prems k
  show ?case by (simp add: Let_def)
qed

lemma reverse_mtf_total:
  "\<forall>k\<in>set ks. 0 \<le> k \<and> k < 256 \<Longrightarrow> \<exists>bs. reverse_move_to_front_transform ks = Inr bs"
  using unmtf_loop_total [OF length_initial_alphabet, of ks "[]"]
  by (auto simp: reverse_move_to_front_transform_def filter_empty_conv)

section \<open>The run encoder\<close>

lemma count_run_ge: "c \<le> count_run data i v c"
  by (induction data i v c rule: count_run.induct) (subst count_run.simps, auto)

lemma count_run_spec:
  "count_run data i v c = c' \<Longrightarrow>
     (c \<le> 127 \<longrightarrow> c' \<le> 127)
   \<and> (i + c \<le> length data \<longrightarrow> i + c' \<le> length data)
   \<and> (\<forall>k. c \<le> k \<and> k < c' \<longrightarrow> data ! (i + k) = v)"
proof (induction data i v c rule: count_run.induct)
  case (1 data i v c)
  show ?case
  proof (cases "i + c < length data \<and> data ! (i + c) = v \<and> c < 127")
    case True
    with "1.prems" have rec: "count_run data i v (c + 1) = c'"
      by (subst (asm) count_run.simps) simp
    note IH = "1.IH" [OF True rec]
    have "data ! (i + k) = v" if "c \<le> k" "k < c'" for k
    proof (cases "k = c")
      case True
      with \<open>i + c < length data \<and> data ! (i + c) = v \<and> c < 127\<close> show ?thesis by simp
    next
      case False
      with that have "c + 1 \<le> k \<and> k < c'" by simp
      with IH show ?thesis by blast
    qed
    moreover from IH True have "c \<le> 127 \<longrightarrow> c' \<le> 127" by simp
    moreover from IH True have "i + c \<le> length data \<longrightarrow> i + c' \<le> length data" by simp
    ultimately show ?thesis by blast
  next
    case False
    with "1.prems" have "c' = c" by (subst (asm) count_run.simps) auto
    then show ?thesis by simp
  qed
qed


lemma count_run_first:
  assumes "i < length data" and "cnt = count_run data i (data ! i) 1"
  shows "1 \<le> cnt" and "cnt \<le> 127" and "i + cnt \<le> length data"
    and "take cnt (drop i data) = replicate cnt (data ! i)"
proof -
  from assms(2) have spec: "count_run data i (data ! i) 1 = cnt" by simp
  from count_run_ge [of 1 data i "data ! i"] assms(2) show "1 \<le> cnt" by simp
  from count_run_spec [OF spec] show "cnt \<le> 127" by simp
  from count_run_spec [OF spec] assms(1) show fits: "i + cnt \<le> length data" by simp
  have "data ! (i + k) = data ! i" if "k < cnt" for k
  proof (cases k)
    case 0
    then show ?thesis by simp
  next
    case (Suc j)
    with that have "1 \<le> k \<and> k < cnt" by simp
    with count_run_spec [OF spec] show ?thesis by blast
  qed
  with fits show "take cnt (drop i data) = replicate cnt (data ! i)"
    by (auto simp: list_eq_iff_nth_eq)
qed

lemma to_byte_range: "0 \<le> v \<Longrightarrow> v < 256 \<Longrightarrow> to_byte v = Inr (word_of_int v)"
  by (simp add: to_byte_def)

lemma uint_word_of_int_byte: "0 \<le> v \<Longrightarrow> v < 256 \<Longrightarrow> uint (word_of_int v :: byte) = v"
  by (simp add: uint_word_of_int)

lemma raw_scan_ge: "raw_scan data i r raw = Inr (r', raw') \<Longrightarrow> r \<le> r'"
proof (induction data i r raw rule: raw_scan.induct)
  case (1 data i r raw)
  show ?case
  proof (cases "i + r < length data \<and> r < 127")
    case False
    with "1.prems" show ?thesis by (subst (asm) raw_scan.simps) auto
  next
    case inrange: True
    show ?thesis
    proof (cases "i + r + 2 < length data \<and> data ! (i + r) = data ! (i + r + 1)
                    \<and> data ! (i + r + 1) = data ! (i + r + 2)")
      case True
      with inrange "1.prems" show ?thesis by (subst (asm) raw_scan.simps) auto
    next
      case False
      with inrange "1.prems" obtain b where b: "to_byte (data ! (i + r)) = Inr b"
        and rec: "raw_scan data i (r + 1) (raw @ [b]) = Inr (r', raw')"
        by (subst (asm) raw_scan.simps) (auto split: sum.splits)
      from "1.IH" [OF inrange False b rec] show ?thesis by simp
    qed
  qed
qed

lemma raw_scan_spec:
  "\<forall>x\<in>set data. 0 \<le> x \<and> x < 256 \<Longrightarrow> i + r \<le> length data \<Longrightarrow> r \<le> 127 \<Longrightarrow>
    \<exists>r'. raw_scan data i r raw
            = Inr (r', raw @ map word_of_int (take (r' - r) (drop (i + r) data)))
        \<and> r \<le> r' \<and> r' \<le> 127 \<and> i + r' \<le> length data"
proof (induction data i r raw rule: raw_scan.induct)
  case (1 data i r raw)
  show ?case
  proof (cases "i + r < length data \<and> r < 127")
    case False
    then have "raw_scan data i r raw = Inr (r, raw)" by (subst raw_scan.simps) auto
    with "1.prems" show ?thesis by (intro exI [of _ r]) simp
  next
    case inrange: True
    show ?thesis
    proof (cases "i + r + 2 < length data \<and> data ! (i + r) = data ! (i + r + 1)
                    \<and> data ! (i + r + 1) = data ! (i + r + 2)")
      case True
      with inrange have "raw_scan data i r raw = Inr (r, raw)"
        by (subst raw_scan.simps) simp
      with "1.prems" show ?thesis by (intro exI [of _ r]) simp
    next
      case False
      let ?b = "word_of_int (data ! (i + r)) :: byte"
      from inrange have "data ! (i + r) \<in> set data" by simp
      with "1.prems"(1) have b: "to_byte (data ! (i + r)) = Inr ?b"
        by (intro to_byte_range) blast+
      from inrange have "i + (r + 1) \<le> length data" "r + 1 \<le> 127" by simp_all
      from "1.IH" [OF inrange False b "1.prems"(1) this] obtain r' where
        r': "raw_scan data i (r + 1) (raw @ [?b])
              = Inr (r', (raw @ [?b]) @ map word_of_int (take (r' - (r + 1)) (drop (i + (r + 1)) data)))"
          "r + 1 \<le> r'" "r' \<le> 127" "i + r' \<le> length data"
        by blast
      from r'(2) have "r' - r = Suc (r' - (r + 1))" by simp
      with inrange have "take (r' - r) (drop (i + r) data)
          = data ! (i + r) # take (r' - (r + 1)) (drop (i + (r + 1)) data)"
        by (simp add: Cons_nth_drop_Suc [symmetric])
      with r' have "raw_scan data i (r + 1) (raw @ [?b])
          = Inr (r', raw @ map word_of_int (take (r' - r) (drop (i + r) data)))"
        by simp
      moreover from inrange False b
      have "raw_scan data i r raw = raw_scan data i (r + 1) (raw @ [?b])"
        by (subst raw_scan.simps) auto
      ultimately show ?thesis using r' by (intro exI [of _ r']) simp
    qed
  qed
qed


lemma raw_scan_progress:
  assumes "i < length data" and "\<not> 2 < count_run data i (data ! i) 1"
    and scan: "raw_scan data i 0 [] = Inr (r, raw)"
  shows "1 \<le> r"
proof -
  have short: "\<not> (i + 2 < length data \<and> data ! i = data ! (i + 1) \<and> data ! (i + 1) = data ! (i + 2))"
  proof
    assume run: "i + 2 < length data \<and> data ! i = data ! (i + 1) \<and> data ! (i + 1) = data ! (i + 2)"
    then have "count_run data i (data ! i) 1 = count_run data i (data ! i) 2"
      by (subst count_run.simps) (simp add: numeral_2_eq_2)
    also from run have "\<dots> = count_run data i (data ! i) 3"
      by (subst count_run.simps) simp
    finally have "3 \<le> count_run data i (data ! i) 1"
      using count_run_ge [of 3 data i "data ! i"] by simp
    with assms(2) show False by simp
  qed
  with assms(1) scan obtain b where "raw_scan data i 1 [b] = Inr (r, raw)"
    by (subst (asm) raw_scan.simps) (auto split: sum.splits if_splits)
  from raw_scan_ge [OF this] show ?thesis .
qed

text \<open>One iteration of the encoder's loop, case by case.\<close>

lemma rle_done: "\<not> i < length data \<Longrightarrow> rle_loop data i enc = Inr enc"
  by (subst rle_loop.simps) simp

lemma rle_repeat:
  "i < length data \<Longrightarrow> 2 < count_run data i (data ! i) 1 \<Longrightarrow> to_byte (data ! i) = Inr b \<Longrightarrow>
   rle_loop data i enc
     = rle_loop data (i + count_run data i (data ! i) 1)
         (enc @ [0x80 OR of_nat (count_run data i (data ! i) 1), b])"
  by (subst rle_loop.simps) (simp add: Let_def)

lemma rle_raw:
  "i < length data \<Longrightarrow> \<not> 2 < count_run data i (data ! i) 1
   \<Longrightarrow> raw_scan data i 0 [] = Inr (r, raw)
   \<Longrightarrow> rle_loop data i enc = rle_loop data (i + r) (enc @ [of_nat r] @ raw)"
  by (subst rle_loop.simps) (simp add: Let_def)

lemma uint_word_of_int_list:
  "\<forall>x\<in>set xs. 0 \<le> x \<and> x < 256 \<Longrightarrow> map uint (map word_of_int xs :: byte list) = xs"
  by (induction xs) (simp_all add: uint_word_of_int_byte)

lemma rle_loop_records:
  assumes range: "\<forall>x\<in>set data. 0 \<le> x \<and> x < 256"
  shows "\<exists>recs. list_all well_formed recs
      \<and> rle_loop data i enc = Inr (enc @ concat (map frame recs))
      \<and> concat (map expand recs) = drop i data"
proof (induction "length data - i" arbitrary: i enc rule: less_induct)
  case less
  show ?case
  proof (cases "i < length data")
    case False
    then show ?thesis by (intro exI [of _ "[]"]) (simp add: rle_done)
  next
    case True
    define cnt where "cnt = count_run data i (data ! i) 1"
    note first = count_run_first [OF True cnt_def]
    from True range have cur: "0 \<le> data ! i" "data ! i < 256" by simp_all
    show ?thesis
    proof (cases "2 < cnt")
      case long: True
      let ?b = "word_of_int (data ! i) :: byte"
      let ?r = "Repeat cnt ?b"
      from first(2) have r: "well_formed ?r" by simp
      from long True have step: "rle_loop data i enc
          = rle_loop data (i + cnt) (enc @ [0x80 OR of_nat cnt, ?b])"
        unfolding cnt_def by (intro rle_repeat to_byte_range cur)
      from first(1) True have "length data - (i + cnt) < length data - i" by simp
      from less [OF this, of "enc @ [0x80 OR of_nat cnt, ?b]"] obtain recs where
        recs: "list_all well_formed recs"
          "rle_loop data (i + cnt) (enc @ [0x80 OR of_nat cnt, ?b])
            = Inr ((enc @ [0x80 OR of_nat cnt, ?b]) @ concat (map frame recs))"
          "concat (map expand recs) = drop (i + cnt) data"
        by blast
      have "concat (map expand (?r # recs)) = take cnt (drop i data) @ drop cnt (drop i data)"
        using recs(3) first(4) cur by (simp add: uint_word_of_int_byte add.commute)
      then have "concat (map expand (?r # recs)) = drop i data"
        by (simp only: append_take_drop_id)
      moreover from step recs(2)
      have "rle_loop data i enc = Inr (enc @ concat (map frame (?r # recs)))" by simp
      moreover from r recs(1) have "list_all well_formed (?r # recs)" by simp
      ultimately show ?thesis by blast
    next
      case short: False
      from raw_scan_spec [OF range, of i 0 "[]"] True obtain r where
        scan: "raw_scan data i 0 [] = Inr (r, map word_of_int (take r (drop i data)))"
        and r: "r \<le> 127" "i + r \<le> length data"
        by auto
      let ?raw = "map word_of_int (take r (drop i data)) :: byte list"
      let ?r = "Raw ?raw"
      from short have short': "\<not> 2 < count_run data i (data ! i) 1" by (simp add: cnt_def)
      from raw_scan_progress [OF True short' scan] have pos: "1 \<le> r" .
      from r have len: "length ?raw = r" by simp
      with r have wf: "well_formed ?r" by simp
      from rle_raw [OF True short' scan]
      have step: "rle_loop data i enc = rle_loop data (i + r) (enc @ [of_nat r] @ ?raw)" .
      from pos True have "length data - (i + r) < length data - i" by simp
      from less [OF this, of "enc @ [of_nat r] @ ?raw"] obtain recs where
        recs: "list_all well_formed recs"
          "rle_loop data (i + r) (enc @ [of_nat r] @ ?raw)
            = Inr ((enc @ [of_nat r] @ ?raw) @ concat (map frame recs))"
          "concat (map expand recs) = drop (i + r) data"
        by blast
      have "\<forall>x\<in>set (take r (drop i data)). 0 \<le> x \<and> x < 256"
        using range by (meson in_set_dropD in_set_takeD)
      then have "map uint ?raw = take r (drop i data)" by (rule uint_word_of_int_list)
      then have "concat (map expand (?r # recs)) = take r (drop i data) @ drop r (drop i data)"
        using recs(3) by (simp add: add.commute)
      then have "concat (map expand (?r # recs)) = drop i data"
        by (simp only: append_take_drop_id)
      moreover from step recs(2) len
      have "rle_loop data i enc = Inr (enc @ concat (map frame (?r # recs)))" by simp
      moreover from wf recs(1) have "list_all well_formed (?r # recs)" by simp
      ultimately show ?thesis by blast
    qed
  qed
qed

lemma perform_rle_inverse:
  assumes "\<forall>x\<in>set data. 0 \<le> x \<and> x < 256"
  shows "\<exists>enc. perform_run_length_encoding data = Inr enc
    \<and> decode_run_length_encoding enc = Inr data"
proof -
  from rle_loop_records [OF assms, of 0 "[]"] obtain recs where
    recs: "list_all well_formed recs" "rle_loop data 0 [] = Inr (concat (map frame recs))"
      "concat (map expand recs) = data"
    by auto
  from recs have "perform_run_length_encoding data = Inr (concat (map frame recs))"
    by (auto simp: perform_run_length_encoding_def rle_done)
  with decode_frames [OF recs(1)] recs(3) show ?thesis by simp
qed

section \<open>The tables of the block-sort inverse\<close>

lemma dict_get_update:
  "dict_get (AList.update k v d) x dflt = (if x = k then v else dict_get d x dflt)"
  by (simp add: dict_get_def update_conv')

lemma dict_get_Nil [simp]: "dict_get [] x dflt = dflt"
  by (simp add: dict_get_def)

lemma count_chars_spec:
  "distinct (map fst char_counts) \<Longrightarrow>
     distinct (map fst (count_chars T char_counts))
   \<and> fst ` set (count_chars T char_counts) = fst ` set char_counts \<union> set T
   \<and> (\<forall>b. map_of (count_chars T char_counts) b
          = (if b \<in> set T then Some (dict_get char_counts b 0 + count_list T b)
             else map_of char_counts b))"
proof (induction T arbitrary: char_counts)
  case Nil
  then show ?case by simp
next
  case (Cons c T)
  let ?cc = "AList.update c (dict_get char_counts c 0 + 1) char_counts"
  from Cons.prems have "distinct (map fst ?cc)" by (rule distinct_update)
  note IH = Cons.IH [OF this]
  have "map_of (count_chars (c # T) char_counts) b
      = (if b \<in> set (c # T) then Some (dict_get char_counts b 0 + count_list (c # T) b)
         else map_of char_counts b)" for b
    using IH by (auto simp: dict_get_update update_conv')
  moreover from IH have "distinct (map fst (count_chars (c # T) char_counts))" by simp
  moreover from IH have "fst ` set (count_chars (c # T) char_counts)
      = fst ` set char_counts \<union> set (c # T)"
    by (auto simp: dom_update)
  ultimately show ?case by blast
qed

lemma count_chars_keys:
  "sort (map fst (count_chars T [])) = sorted_list_of_set (set T)"
proof -
  from count_chars_spec [of "[]" T]
  have "distinct (map fst (count_chars T []))" "set (map fst (count_chars T [])) = set T"
    by simp_all
  then show ?thesis
    by (metis distinct_sort set_sort sorted_sort sorted_list_of_set.idem_if_sorted_distinct
          sorted_list_of_set.set_sorted_key_list_of_set finite_set)
qed


lemma length_filter_or_eq:
  "\<not> P b \<Longrightarrow> length (filter (\<lambda>x. x = b \<or> P x) T) = length (filter P T) + count_list T b"
  by (induction T) auto

lemma cumulate_spec:
  assumes cc: "\<forall>k\<in>set T. map_of char_counts k = Some (count_list T k)"
  shows "sorted (pre @ ks) \<Longrightarrow> distinct (pre @ ks) \<Longrightarrow> set (pre @ ks) = set T
    \<Longrightarrow> tot = length (filter (\<lambda>x. x \<in> set pre) T)
    \<Longrightarrow> \<exists>cum'. cumulate ks char_counts cum tot = Inr cum'
          \<and> (\<forall>b. map_of cum' b
                 = (if b \<in> set ks then Some (length (filter (\<lambda>x. x < b) T))
                    else map_of cum b))"
proof (induction ks arbitrary: pre cum tot)
  case Nil
  show ?case by simp
next
  case (Cons b ks)
  from Cons.prems(3) have bT: "b \<in> set T" by auto
  with cc have lookup: "dict_lookup char_counts b = Inr (count_list T b)"
    by (simp add: dict_lookup_def)
  have before: "x \<in> set pre \<longleftrightarrow> x < b" if "x \<in> set T" for x
  proof
    assume "x \<in> set pre"
    with Cons.prems(1) have "x \<le> b" by (simp add: sorted_append)
    moreover from \<open>x \<in> set pre\<close> Cons.prems(2) have "x \<noteq> b" by auto
    ultimately show "x < b" by simp
  next
    assume "x < b"
    from Cons.prems(1) have "\<forall>y\<in>set ks. b \<le> y" by (simp add: sorted_append)
    with \<open>x < b\<close> have "x \<notin> set (b # ks)" by auto
    with that Cons.prems(3) show "x \<in> set pre" by auto
  qed
  then have "filter (\<lambda>x. x \<in> set pre) T = filter (\<lambda>x. x < b) T"
    by (intro filter_cong) auto
  with Cons.prems(4) have tot: "tot = length (filter (\<lambda>x. x < b) T)" by simp
  from Cons.prems(2) have "b \<notin> set pre" by simp
  from length_filter_or_eq [of "\<lambda>x. x \<in> set pre", OF this, of T] Cons.prems(4)
  have tot': "tot + count_list T b = length (filter (\<lambda>x. x \<in> set (pre @ [b])) T)" by simp
  from Cons.prems have "sorted ((pre @ [b]) @ ks)" "distinct ((pre @ [b]) @ ks)"
    "set ((pre @ [b]) @ ks) = set T" by simp_all
  from Cons.IH [OF this tot', of "AList.update b tot cum"] obtain cum' where
    cum': "cumulate ks char_counts (AList.update b tot cum) (tot + count_list T b) = Inr cum'"
      "\<forall>x. map_of cum' x
         = (if x \<in> set ks then Some (length (filter (\<lambda>y. y < x) T))
            else map_of (AList.update b tot cum) x)"
    by blast
  from Cons.prems(2) have "b \<notin> set ks" by simp
  with cum'(2) tot have "\<forall>x. map_of cum' x
      = (if x \<in> set (b # ks) then Some (length (filter (\<lambda>y. y < x) T)) else map_of cum x)"
    by (auto simp: update_conv')
  with cum'(1) lookup show ?case by simp
qed

lemma cumulative_counts_spec:
  "\<exists>cum. cumulate (sort (map fst (count_chars T []))) (count_chars T []) [] 0 = Inr cum
     \<and> (\<forall>b\<in>set T. map_of cum b = Some (length (filter (\<lambda>x. x < b) T)))"
proof -
  let ?ks = "sorted_list_of_set (set T)"
  have cc: "\<forall>k\<in>set T. map_of (count_chars T []) k = Some (count_list T k)"
    using count_chars_spec [of "[]" T] by simp
  have "sorted ([] @ ?ks)" "distinct ([] @ ?ks)" "set ([] @ ?ks) = set T"
    "0 = length (filter (\<lambda>x. x \<in> set []) T)"
    by simp_all
  from cumulate_spec [OF cc this, of "[]"] show ?thesis
    by (auto simp: count_chars_keys)
qed

lemma rank_chars_spec:
  "\<forall>b\<in>set T. map_of cum b = Some (C b) \<Longrightarrow>
   rank_chars T cum char_ranks vec
     = Inr (vec @ map (\<lambda>p. C (T ! p) + (dict_get char_ranks (T ! p) 0
                                          + count_list (take p T) (T ! p)))
                   [0..<length T])"
proof (induction T arbitrary: char_ranks vec)
  case Nil
  show ?case by simp
next
  case (Cons b T)
  let ?rank = "dict_get char_ranks b 0"
  let ?ranks' = "AList.update b (?rank + 1) char_ranks"
  from Cons.prems have lookup: "dict_lookup cum b = Inr (C b)"
    by (simp add: dict_lookup_def)
  from Cons.prems have "\<forall>x\<in>set T. map_of cum x = Some (C x)" by simp
  note IH = Cons.IH [OF this, of ?ranks' "vec @ [C b + ?rank]"]
  have "map (\<lambda>p. C ((b # T) ! p) + (dict_get char_ranks ((b # T) ! p) 0
                + count_list (take p (b # T)) ((b # T) ! p))) [0..<length (b # T)]
      = (C b + ?rank) # map (\<lambda>p. C (T ! p) + (dict_get ?ranks' (T ! p) 0
                + count_list (take p T) (T ! p))) [0..<length T]"
    by (simp add: upt_conv_Cons map_Suc_upt [symmetric] dict_get_update del: upt_Suc)
  with IH lookup show ?case by (simp add: Let_def)
qed

lemma transformation_vector_spec:
  "\<forall>b\<in>set T. map_of cum b = Some (length (filter (\<lambda>x. x < b) T)) \<Longrightarrow>
   rank_chars T cum [] [] = Inr (map (lf_index T) [0..<length T])"
  using rank_chars_spec [of T cum "\<lambda>b. length (filter (\<lambda>x. x < b) T)" "[]" "[]"]
  by (simp add: lf_index_def)


lemma length_filter_disjoint:
  "\<forall>x. \<not> (P x \<and> Q x) \<Longrightarrow> length (filter P xs) + length (filter Q xs) \<le> length xs"
  by (induction xs) auto

lemma lf_index_less:
  fixes T :: "'a::linorder list"
  assumes "p < length T"
  shows "lf_index T p < length T"
proof -
  let ?c = "T ! p"
  from assms have "T = take p T @ ?c # drop (Suc p) T" by (simp add: id_take_nth_drop)
  then have "count_list T ?c = count_list (take p T @ ?c # drop (Suc p) T) ?c" by simp
  then have "count_list (take p T) ?c < count_list T ?c" by simp
  moreover have "length (filter (\<lambda>x. x < ?c) T) + length (filter ((=) ?c) T) \<le> length T"
    by (rule length_filter_disjoint) auto
  ultimately show ?thesis by (simp add: lf_index_def count_list_eq_length_filter)
qed

lemma rebuild_total:
  "length vec = length T \<Longrightarrow> \<forall>p<length T. vec ! p < length T \<Longrightarrow> cur < length T
   \<Longrightarrow> \<exists>res. rebuild i T vec cur result = Inr res \<and> length res = length result"
proof (induction i arbitrary: cur result)
  case 0
  show ?case by simp
next
  case (Suc i)
  from Suc.prems have "vec ! cur < length T" by simp
  from Suc.IH [OF Suc.prems(1,2) this, of "result[i := T ! cur]"] Suc.prems
  show ?case by simp
qed

lemma reverse_bwt_unfold:
  "reverse_burrows_wheeler_transform T idx =
     (if T = [] then Inr []
      else if idx < 0 \<or> int (length T) \<le> idx then Inl InvalidIndex
      else rebuild (length T) T (map (lf_index T) [0..<length T]) (nat idx)
             (replicate (length T) 0))"
proof -
  from cumulative_counts_spec [of T] obtain cum where
    cum: "cumulate (sort (map fst (count_chars T []))) (count_chars T []) [] 0 = Inr cum"
      "\<forall>b\<in>set T. map_of cum b = Some (length (filter (\<lambda>x. x < b) T))"
    by blast
  from transformation_vector_spec [OF cum(2)] cum(1) show ?thesis
    by (simp add: reverse_burrows_wheeler_transform_def Let_def)
qed

lemma reverse_bwt_total:
  assumes "T \<noteq> []" and "0 \<le> idx" and "idx < int (length T)"
  shows "\<exists>res. reverse_burrows_wheeler_transform T idx = Inr res \<and> length res = length T"
proof -
  have "\<exists>res. rebuild (length T) T (map (lf_index T) [0..<length T]) (nat idx)
           (replicate (length T) 0) = Inr res \<and> length res = length (replicate (length T) (0 :: byte))"
    using assms by (intro rebuild_total) (simp_all add: lf_index_less)
  with assms show ?thesis by (simp add: reverse_bwt_unfold)
qed

section \<open>Stable sorting by a key\<close>

lemma sorted_partition:
  fixes f :: "'b \<Rightarrow> 'a::linorder"
  shows "sorted (map f zs) \<Longrightarrow>
    zs = filter (\<lambda>y. f y < k) zs @ filter (\<lambda>y. f y = k) zs @ filter (\<lambda>y. k < f y) zs"
proof (induction zs)
  case Nil
  show ?case by simp
next
  case (Cons z zs)
  then have IH: "zs = filter (\<lambda>y. f y < k) zs @ filter (\<lambda>y. f y = k) zs @ filter (\<lambda>y. k < f y) zs"
    and le: "\<forall>y\<in>set zs. f z \<le> f y"
    by simp_all
  consider "f z < k" | "f z = k" | "k < f z" by (rule linorder_cases)
  then show ?case
  proof cases
    case 1
    then have "f z \<noteq> k" "\<not> k < f z" by auto
    with 1 IH show ?thesis by simp
  next
    case 2
    with le have "filter (\<lambda>y. f y < k) zs = []" by (auto simp: filter_empty_conv)
    with 2 IH show ?thesis by simp
  next
    case 3
    with le have "filter (\<lambda>y. f y < k) zs = []" "filter (\<lambda>y. f y = k) zs = []"
      by (auto simp: filter_empty_conv)
    moreover from 3 have "f z \<noteq> k" "\<not> f z < k" by auto
    ultimately show ?thesis using 3 IH by simp
  qed
qed

lemma filter_nth_take:
  assumes "p < length ys" and "P (ys ! p)"
  shows "filter P ys ! length (filter P (take p ys)) = ys ! p"
    and "length (filter P (take p ys)) < length (filter P ys)"
proof -
  from assms(1) have "ys = take p ys @ ys ! p # drop (Suc p) ys"
    by (simp add: id_take_nth_drop)
  then have "filter P ys = filter P (take p ys @ ys ! p # drop (Suc p) ys)" by simp
  with assms(2) have split: "filter P ys
      = filter P (take p ys) @ ys ! p # filter P (drop (Suc p) ys)" by simp
  show "filter P ys ! length (filter P (take p ys)) = ys ! p"
    by (subst split) (simp add: nth_append)
  from arg_cong [OF split, of length]
  show "length (filter P (take p ys)) < length (filter P ys)" by simp
qed

lemma sort_key_position:
  fixes f :: "'b \<Rightarrow> 'a::linorder"
  assumes "p < length ys"
  shows "sort_key f ys ! (length (filter (\<lambda>y. f y < f (ys ! p)) ys)
            + length (filter (\<lambda>y. f y = f (ys ! p)) (take p ys))) = ys ! p"
proof -
  let ?k = "f (ys ! p)"
  let ?zs = "sort_key f ys"
  let ?j = "length (filter (\<lambda>y. f y = ?k) (take p ys))"
  have "sorted (map f ?zs)" by (rule sorted_sort_key)
  from sorted_partition [OF this, of ?k]
  have parts: "?zs = filter (\<lambda>y. f y < ?k) ?zs @ filter (\<lambda>y. f y = ?k) ?zs
      @ filter (\<lambda>y. ?k < f y) ?zs" .
  have "mset (filter (\<lambda>y. f y < ?k) ?zs) = mset (filter (\<lambda>y. f y < ?k) ys)" by simp
  then have len: "length (filter (\<lambda>y. f y < ?k) ?zs) = length (filter (\<lambda>y. f y < ?k) ys)"
    by (rule mset_eq_length)
  have stable: "filter (\<lambda>y. f y = ?k) ?zs = filter (\<lambda>y. f y = ?k) ys"
    by (rule sort_key_stable)
  from filter_nth_take [OF assms, of "\<lambda>y. f y = ?k"]
  have j: "filter (\<lambda>y. f y = ?k) ys ! ?j = ys ! p" "?j < length (filter (\<lambda>y. f y = ?k) ys)"
    by simp_all
  have "?zs ! (length (filter (\<lambda>y. f y < ?k) ys) + ?j)
      = (filter (\<lambda>y. f y < ?k) ?zs @ filter (\<lambda>y. f y = ?k) ?zs
          @ filter (\<lambda>y. ?k < f y) ?zs) ! (length (filter (\<lambda>y. f y < ?k) ?zs) + ?j)"
    using parts len by simp
  also have "\<dots> = filter (\<lambda>y. f y = ?k) ys ! ?j"
    using j(2) by (simp add: nth_append stable)
  finally show ?thesis using j(1) by simp
qed

lemma sorted_by_groups:
  fixes f :: "'b::linorder \<Rightarrow> 'a::linorder"
  assumes "sorted (map f zs)"
    and "\<And>c. sorted (filter (\<lambda>z. f z = c) zs)"
    and "\<And>x y. x \<in> set zs \<Longrightarrow> y \<in> set zs \<Longrightarrow> f x < f y \<Longrightarrow> x \<le> y"
  shows "sorted zs"
  using assms
proof (induction zs)
  case Nil
  show ?case by simp
next
  case (Cons z zs)
  have "sorted (filter (\<lambda>x. f x = c) zs)" for c
    using Cons.prems(2) [of c] by (cases "f z = c") simp_all
  with Cons have "sorted zs" by simp
  moreover have "z \<le> y" if "y \<in> set zs" for y
  proof (cases "f z = f y")
    case True
    from Cons.prems(2) [of "f z"] have "sorted (z # filter (\<lambda>x. f x = f z) zs)" by simp
    with that True show ?thesis by simp
  next
    case False
    with that Cons.prems(1) have "f z < f y" by (simp add: order_less_le)
    with that Cons.prems(3) show ?thesis by simp
  qed
  ultimately show ?case by simp
qed

section \<open>Rotations\<close>

lemma rotate_right_one:
  "r \<noteq> [] \<Longrightarrow> rotate (length r - 1) r = last r # butlast r"
proof -
  assume "r \<noteq> []"
  then have r: "r = butlast r @ [last r]" by simp
  have "rotate (length (butlast r)) (butlast r @ [last r]) = [last r] @ butlast r"
    by (rule rotate_append)
  with r show ?thesis by simp
qed

lemma snoc_le_snoc:
  fixes xs ys :: "'a::linorder list"
  shows "length xs = length ys \<Longrightarrow> xs @ [c] \<le> ys @ [c] \<Longrightarrow> xs \<le> ys"
  by (induction xs ys rule: list_induct2) auto


section \<open>The last-to-first mapping on a sorted block\<close>

text \<open>
  \<open>K\<close> is a sorted list of rows of one length, closed (as a multiset) under rotating a
  row right by one place. Then the last-to-first index of the last column sends the
  position of a row to a position of its right rotation.
\<close>

lemma lf_index_rotates:
  fixes K :: "'a::linorder list list"
  assumes sorted: "sorted K"
    and len: "\<forall>r\<in>set K. length r = n" and n: "0 < n"
    and closed: "mset (map (\<lambda>r. last r # butlast r) K) = mset K"
    and p: "p < length K"
  shows "K ! lf_index (map last K) p = last (K ! p) # butlast (K ! p)"
proof -
  let ?R = "\<lambda>r. last r # butlast r"
  let ?T = "map last K"
  define ys where "ys = map ?R K"
  define K' where "K' = sort_key hd ys"
  have hd_ys: "map hd ys = ?T" by (simp add: ys_def)
  have set_K': "set K' = ?R ` set K" by (simp add: K'_def ys_def)
  have "sorted (map hd K')" unfolding K'_def by (rule sorted_sort_key)
  moreover have "sorted (filter (\<lambda>z. hd z = c) K')" for c
  proof -
    have "filter (\<lambda>z. hd z = c) K' = filter (\<lambda>z. hd z = c) ys"
      unfolding K'_def by (rule sort_key_stable)
    also have "\<dots> = map ?R (filter (\<lambda>r. last r = c) K)"
      by (simp add: ys_def filter_map o_def)
    finally have eq: "filter (\<lambda>z. hd z = c) K' = map ?R (filter (\<lambda>r. last r = c) K)" .
    have "sorted_wrt (\<le>) (filter (\<lambda>r. last r = c) K)"
      using sorted by (intro sorted_wrt_filter) simp
    then have "sorted_wrt (\<lambda>x y. ?R x \<le> ?R y) (filter (\<lambda>r. last r = c) K)"
    proof (rule sorted_wrt_mono_rel [rotated])
      fix x y
      assume x: "x \<in> set (filter (\<lambda>r. last r = c) K)"
        and y: "y \<in> set (filter (\<lambda>r. last r = c) K)" and "x \<le> y"
      from x y len n have "x \<noteq> []" "y \<noteq> []" "length x = length y" by auto
      then have "x = butlast x @ [last x]" "y = butlast y @ [last y]"
        "length (butlast x) = length (butlast y)" by simp_all
      with x y \<open>x \<le> y\<close> have "butlast x @ [c] \<le> butlast y @ [c]" by simp
      with \<open>length (butlast x) = length (butlast y)\<close> have "butlast x \<le> butlast y"
        by (rule snoc_le_snoc)
      with x y show "?R x \<le> ?R y" by simp
    qed
    then have "sorted (map ?R (filter (\<lambda>r. last r = c) K))" by (simp add: sorted_map)
    with eq show ?thesis by simp
  qed
  moreover have "x \<le> y" if "x \<in> set K'" "y \<in> set K'" "hd x < hd y" for x y
  proof -
    from that(1,2) set_K' obtain a u b v where "x = a # u" "y = b # v" by auto
    with that(3) show ?thesis by simp
  qed
  ultimately have "sorted K'" by (rule sorted_by_groups)
  moreover have "mset K' = mset K" using closed by (simp add: K'_def ys_def)
  ultimately have "sort K = K'" by (intro properties_for_sort)
  with sorted have K': "K' = K" by (simp add: sorted_sort_id)
  from p have p': "p < length ys" by (simp add: ys_def)
  from p have T_p: "hd (ys ! p) = ?T ! p" by (simp add: ys_def)
  have "length (filter (\<lambda>y. hd y < ?T ! p) ys) = length (filter (\<lambda>x. x < ?T ! p) (map hd ys))"
    by (simp add: filter_map o_def)
  moreover have "length (filter (\<lambda>y. hd y = ?T ! p) (take p ys))
      = count_list (take p (map hd ys)) (?T ! p)"
    by (simp add: count_list_eq_length_filter take_map filter_map o_def eq_commute)
  ultimately have "lf_index ?T p = length (filter (\<lambda>y. hd y < hd (ys ! p)) ys)
      + length (filter (\<lambda>y. hd y = hd (ys ! p)) (take p ys))"
    unfolding lf_index_def T_p hd_ys by simp
  with sort_key_position [OF p', of hd] have "K' ! lf_index ?T p = ys ! p"
    by (simp add: K'_def)
  with K' p show ?thesis by (simp add: ys_def)
qed


section \<open>The block-sort transform\<close>

subsection \<open>The comparator and the sort\<close>

lemma rotate_conv_map:
  "rotate a xs = map (\<lambda>i. xs ! ((a + i) mod length xs)) [0..<length xs]"
proof (rule nth_equalityI)
  show "length (rotate a xs) = length (map (\<lambda>i. xs ! ((a + i) mod length xs)) [0..<length xs])"
    by simp
next
  fix i
  assume "i < length (rotate a xs)"
  then have "i < length xs" by simp
  then show "rotate a xs ! i = map (\<lambda>i. xs ! ((a + i) mod length xs)) [0..<length xs] ! i"
    by (simp add: nth_rotate)
qed

lemma uint_diff_sign:
  fixes x y :: byte
  shows "uint x - uint y = 0 \<longleftrightarrow> x = y" and "uint x - uint y < 0 \<longleftrightarrow> x < y"
  by (auto simp: word_less_def word_uint_eq_iff)

lemma compare_from_sign:
  "(compare_from data a b js < 0 \<longleftrightarrow>
      map (\<lambda>i. data ! ((a + i) mod length data)) js < map (\<lambda>i. data ! ((b + i) mod length data)) js)
   \<and> (compare_from data a b js = 0 \<longleftrightarrow>
      map (\<lambda>i. data ! ((a + i) mod length data)) js = map (\<lambda>i. data ! ((b + i) mod length data)) js)"
proof (induction js)
  case Nil
  show ?case by simp
next
  case (Cons j js)
  let ?x = "data ! ((a + j) mod length data)" and ?y = "data ! ((b + j) mod length data)"
  show ?case
  proof (cases "?x = ?y")
    case True
    with Cons show ?thesis by (simp add: Let_def)
  next
    case False
    with uint_diff_sign(1) [of ?x ?y] have "uint ?x - uint ?y \<noteq> 0" by blast
    with False uint_diff_sign(2) [of ?x ?y] show ?thesis by (simp add: Let_def)
  qed
qed

lemma compare_rotations_sign:
  assumes "data \<noteq> []"
  shows "compare_rotations data a b < 0 \<longleftrightarrow> rotate a data < rotate b data"
    and "compare_rotations data a b = 0 \<longleftrightarrow> rotate a data = rotate b data"
    and "compare_rotations data a b \<le> 0 \<longleftrightarrow> rotate a data \<le> rotate b data"
proof -
  from compare_from_sign [of data a b "[0..<length data]"]
  show lt: "compare_rotations data a b < 0 \<longleftrightarrow> rotate a data < rotate b data"
    and eq: "compare_rotations data a b = 0 \<longleftrightarrow> rotate a data = rotate b data"
    by (simp_all add: compare_rotations_def rotate_conv_map [symmetric])
  then show "compare_rotations data a b \<le> 0 \<longleftrightarrow> rotate a data \<le> rotate b data"
    by (auto simp: order_le_less)
qed

lemma insort_cmp_key:
  fixes f :: "'b \<Rightarrow> 'a::linorder"
  assumes "\<And>x y. cmp x y \<le> 0 \<longleftrightarrow> f x \<le> f y"
  shows "insort_cmp cmp x ys = insort_key f x ys"
  by (induction ys) (simp_all add: assms)

lemma sort_cmp_key:
  fixes f :: "'b \<Rightarrow> 'a::linorder"
  assumes "\<And>x y. cmp x y \<le> 0 \<longleftrightarrow> f x \<le> f y"
  shows "sort_cmp cmp xs = sort_key f xs"
  by (induction xs) (simp_all add: sort_cmp_def insort_cmp_key [of cmp f, OF assms])

lemma sorted_rotations_sort_key:
  "data \<noteq> [] \<Longrightarrow> sorted_rotations data = sort_key (\<lambda>i. rotate i data) [0..<length data]"
  unfolding sorted_rotations_def
  by (rule sort_cmp_key) (simp add: compare_rotations_sign)


subsection \<open>The forward transform\<close>

lemma last_rotate:
  assumes "i < length xs"
  shows "last (rotate i xs) = (if i > 0 then xs ! (i - 1) else last xs)"
proof (cases "i = 0")
  case True
  then show ?thesis by simp
next
  case False
  with assms have "rotate i xs \<noteq> []" "length (rotate i xs) = length xs" by auto
  then have "last (rotate i xs) = rotate i xs ! (length xs - 1)"
    by (simp add: last_conv_nth)
  also from assms have "\<dots> = xs ! ((i + (length xs - 1)) mod length xs)"
    by (simp add: nth_rotate)
  also from assms False have "(i + (length xs - 1)) mod length xs = i - 1"
    by (simp add: mod_if)
  finally show ?thesis using False by simp
qed

lemma bwt_emit_fst:
  "\<forall>i\<in>set idxs. i < length data \<Longrightarrow>
   fst (bwt_emit data (enumerate k idxs) acc oi) = acc @ map (\<lambda>i. last (rotate i data)) idxs"
  by (induction idxs arbitrary: k acc oi) (simp_all add: last_rotate)

lemma bwt_emit_snd_absent:
  "0 \<notin> set idxs \<Longrightarrow> snd (bwt_emit data (enumerate k idxs) acc oi) = oi"
  by (induction idxs arbitrary: k acc oi) simp_all

lemma bwt_emit_snd:
  "distinct idxs \<Longrightarrow> p < length idxs \<Longrightarrow> idxs ! p = 0
   \<Longrightarrow> snd (bwt_emit data (enumerate k idxs) acc oi) = int (k + p)"
proof (induction idxs arbitrary: k acc oi p)
  case Nil
  then show ?case by simp
next
  case (Cons i idxs)
  show ?case
  proof (cases p)
    case 0
    with Cons.prems have "i = 0" "0 \<notin> set idxs" by auto
    with 0 show ?thesis by (simp add: bwt_emit_snd_absent)
  next
    case (Suc q)
    with Cons.prems have q: "q < length idxs" "idxs ! q = 0" "distinct idxs" by simp_all
    then have "0 \<in> set idxs" by (metis nth_mem)
    with Cons.prems(1) have "i \<noteq> 0" by (metis distinct.simps(2))
    with Cons.IH [OF q(3) q(1) q(2), of "Suc k"] Suc show ?thesis by simp
  qed
qed

lemma sorted_rotations_perm:
  assumes "data \<noteq> []"
  shows "mset (sorted_rotations data) = mset [0..<length data]"
    and "set (sorted_rotations data) = {0..<length data}"
    and "distinct (sorted_rotations data)"
    and "length (sorted_rotations data) = length data"
  using assms by (simp_all add: sorted_rotations_sort_key)

lemma perform_bwt_spec:
  assumes "data \<noteq> []"
  shows "\<exists>p < length data. sorted_rotations data ! p = 0
    \<and> perform_burrows_wheeler_transform data
        = (map (\<lambda>i. last (rotate i data)) (sorted_rotations data), int p)"
proof -
  let ?ind = "sorted_rotations data"
  note perm = sorted_rotations_perm [OF assms]
  from assms perm(2) have "0 \<in> set ?ind" by simp
  then obtain p where p: "p < length ?ind" "?ind ! p = 0"
    by (auto simp: in_set_conv_nth)
  from perm(2) have "\<forall>i\<in>set ?ind. i < length data" by simp
  from bwt_emit_fst [OF this, of 0 "[]" "- 1"] bwt_emit_snd [OF perm(3) p, of data 0 "[]" "- 1"]
  have "bwt_emit data (enumerate 0 ?ind) [] (- 1)
      = (map (\<lambda>i. last (rotate i data)) ?ind, int p)"
    by (simp add: prod_eq_iff)
  with assms p perm(4) show ?thesis
    by (auto simp: perform_burrows_wheeler_transform_def)
qed


subsection \<open>The sorted block of rotations\<close>

lemma mset_rotate_eq: "mset (rotate n xs) = mset xs"
proof (induction n)
  case 0
  show ?case by simp
next
  case (Suc n)
  have "mset (rotate1 ys) = mset ys" for ys :: "'a list" by (cases ys) simp_all
  with Suc show ?case by simp
qed

lemma rotations_closed:
  assumes "xs \<noteq> []"
  shows "mset (map (\<lambda>r. last r # butlast r) (map (\<lambda>i. rotate i xs) [0..<length xs]))
    = mset (map (\<lambda>i. rotate i xs) [0..<length xs])"
proof -
  let ?n = "length xs"
  have "(last (rotate i xs) # butlast (rotate i xs)) = rotate ((?n - 1 + i) mod ?n) xs" for i
  proof -
    from assms have "rotate i xs \<noteq> []" by simp
    from rotate_right_one [OF this]
    have "last (rotate i xs) # butlast (rotate i xs) = rotate (?n - 1) (rotate i xs)" by simp
    also have "\<dots> = rotate (?n - 1 + i) xs" by (rule rotate_rotate)
    also have "\<dots> = rotate ((?n - 1 + i) mod ?n) xs" by (rule rotate_conv_mod)
    finally show ?thesis .
  qed
  then have "map (\<lambda>r. last r # butlast r) (map (\<lambda>i. rotate i xs) [0..<?n])
      = map (\<lambda>i. rotate i xs) (map (\<lambda>i. (?n - 1 + i) mod ?n) [0..<?n])"
    by simp
  also have "map (\<lambda>i. (?n - 1 + i) mod ?n) [0..<?n] = rotate (?n - 1) [0..<?n]"
  proof -
    have "map (\<lambda>i. (?n - 1 + i) mod ?n) [0..<?n]
        = map (\<lambda>i. [0..<?n] ! ((?n - 1 + i) mod length [0..<?n])) [0..<length [0..<?n]]"
      using assms by (intro map_cong) simp_all
    then show ?thesis by (simp only: rotate_conv_map [symmetric])
  qed
  finally show ?thesis by (simp add: mset_rotate_eq)
qed

lemma sorted_block:
  assumes "data \<noteq> []"
  defines "K \<equiv> map (\<lambda>i. rotate i data) (sorted_rotations data)"
  shows "sorted K" and "\<forall>r\<in>set K. length r = length data" and "length K = length data"
    and "mset (map (\<lambda>r. last r # butlast r) K) = mset K"
proof -
  let ?f = "\<lambda>i. rotate i data"
  from assms(1) have ind: "sorted_rotations data = sort_key ?f [0..<length data]"
    by (rule sorted_rotations_sort_key)
  show "sorted K" unfolding K_def ind by (rule sorted_sort_key)
  show "\<forall>r\<in>set K. length r = length data" by (auto simp: K_def)
  show "length K = length data" by (simp add: K_def ind)
  have "mset K = mset (map ?f [0..<length data])" by (simp add: K_def ind)
  moreover have "mset (map (\<lambda>r. last r # butlast r) K)
      = mset (map (\<lambda>r. last r # butlast r) (map ?f [0..<length data]))"
    by (simp add: K_def ind)
  ultimately show "mset (map (\<lambda>r. last r # butlast r) K) = mset K"
    using rotations_closed [OF assms(1)] by simp
qed


subsection \<open>Walking the block backwards\<close>

lemma rebuild_walk:
  fixes data :: "byte list"
  assumes "data \<noteq> []"
  defines "K \<equiv> map (\<lambda>i. rotate i data) (sorted_rotations data)"
  defines "T \<equiv> map last K"
  defines "vec \<equiv> map (lf_index T) [0..<length T]"
  shows "i \<le> length data \<Longrightarrow> cur < length data \<Longrightarrow> K ! cur = rotate i data
    \<Longrightarrow> length res = length data
    \<Longrightarrow> rebuild i T vec cur res = Inr (take i data @ drop i res)"
proof (induction i arbitrary: cur res)
  case 0
  show ?case by simp
next
  case (Suc i)
  let ?n = "length data"
  note block = sorted_block [OF assms(1), folded K_def]
  from block(3) have lenT: "length T = ?n" and lenv: "length vec = ?n"
    by (simp_all add: T_def vec_def)
  from Suc.prems have i: "i < ?n" by simp
  from Suc.prems(2) block(3) have cur: "cur < length K" by simp
  from assms(1) have rot: "rotate (Suc i) data \<noteq> []" "length (rotate (Suc i) data) = ?n"
    by simp_all
  have "T ! cur = last (rotate (Suc i) data)"
    using cur Suc.prems(3) by (simp add: T_def)
  also have "\<dots> = rotate (Suc i) data ! (?n - 1)"
    using rot by (simp add: last_conv_nth)
  also have "\<dots> = data ! ((Suc i + (?n - 1)) mod ?n)"
    by (rule nth_rotate) (use assms(1) in simp)
  also have "(Suc i + (?n - 1)) mod ?n = i"
  proof -
    from i have "Suc i + (?n - 1) = i + ?n" by simp
    with i show ?thesis by simp
  qed
  finally have byte: "T ! cur = data ! i" .
  from Suc.prems(2) lenT have next_lt: "lf_index T cur < ?n"
    using lf_index_less [of cur T] by simp
  from Suc.prems(2) lenT have vec_cur: "vec ! cur = lf_index T cur"
    by (simp add: vec_def)
  from assms(1) have "0 < ?n" by simp
  from lf_index_rotates [OF block(1) block(2) this block(4) cur]
  have "K ! lf_index T cur = last (K ! cur) # butlast (K ! cur)" by (simp add: T_def)
  also have "\<dots> = rotate (?n - 1) (rotate (Suc i) data)"
    using rotate_right_one [OF rot(1)] Suc.prems(3) by simp
  also have "\<dots> = rotate (?n - 1 + Suc i) data" by (rule rotate_rotate)
  also have "\<dots> = rotate ((?n - 1 + Suc i) mod ?n) data" by (rule rotate_conv_mod)
  also have "(?n - 1 + Suc i) mod ?n = i"
  proof -
    from i have "?n - 1 + Suc i = i + ?n" by simp
    with i show ?thesis by simp
  qed
  finally have row: "K ! lf_index T cur = rotate i data" .
  from i have "i \<le> ?n" by simp
  from Suc.IH [OF this next_lt row, of "res[i := data ! i]"] Suc.prems(4)
  have "rebuild i T vec (lf_index T cur) (res[i := data ! i])
      = Inr (take i data @ drop i (res[i := data ! i]))" by simp
  also from i Suc.prems(4) have "drop i (res[i := data ! i]) = data ! i # drop (Suc i) res"
    by (simp add: upd_conv_take_nth_drop)
  also from i have "take i data @ data ! i # drop (Suc i) res = take (Suc i) data @ drop (Suc i) res"
    by (simp add: take_Suc_conv_app_nth)
  finally show ?case
    using Suc.prems(2) lenT lenv byte vec_cur by simp
qed

lemma bwt_inverse:
  "reverse_burrows_wheeler_transform (fst (perform_burrows_wheeler_transform data))
     (snd (perform_burrows_wheeler_transform data)) = Inr data"
proof (cases "data = []")
  case True
  then show ?thesis
    by (simp add: perform_burrows_wheeler_transform_def reverse_burrows_wheeler_transform_def)
next
  case False
  let ?n = "length data"
  let ?K = "map (\<lambda>i. rotate i data) (sorted_rotations data)"
  let ?T = "map last ?K"
  from perform_bwt_spec [OF False] obtain p where
    p: "p < ?n" "sorted_rotations data ! p = 0"
      "perform_burrows_wheeler_transform data = (?T, int p)"
    by (auto simp: o_def)
  note perm = sorted_rotations_perm [OF False]
  from p(1,2) perm(4) have start: "?K ! p = rotate ?n data" by simp
  have lenT: "length ?T = ?n" by (simp add: perm(4))
  from rebuild_walk [OF False order_refl p(1) start, of "replicate ?n 0"]
  have "rebuild ?n ?T (map (lf_index ?T) [0..<length ?T]) p (replicate ?n 0) = Inr data"
    by simp
  moreover from False lenT have "?T \<noteq> []" by (metis length_0_conv)
  ultimately show ?thesis
    using p(1) lenT by (simp add: p(3) reverse_bwt_unfold del: map_map)
qed

subsection \<open>Ties in the rotation sort\<close>

lemma insort_key_tiebreak:
  fixes f :: "'b::linorder \<Rightarrow> 'a::linorder"
  assumes "sorted_wrt (\<lambda>a b. f a < f b \<or> (f a = f b \<and> a < b)) zs"
    and "\<forall>z\<in>set zs. x < z"
  shows "sorted_wrt (\<lambda>a b. f a < f b \<or> (f a = f b \<and> a < b)) (insort_key f x zs)"
  using assms
proof (induction zs)
  case Nil
  show ?case by simp
next
  case (Cons z zs)
  show ?case
  proof (cases "f x \<le> f z")
    case True
    have "f x < f y \<or> (f x = f y \<and> x < y)" if "y \<in> set (z # zs)" for y
    proof -
      from that Cons.prems(1) have "f z \<le> f y" by auto
      with True have "f x \<le> f y" by simp
      moreover from that Cons.prems(2) have "x < y" by auto
      ultimately show ?thesis by auto
    qed
    with True Cons.prems(1) show ?thesis by simp
  next
    case False
    from Cons have "sorted_wrt (\<lambda>a b. f a < f b \<or> (f a = f b \<and> a < b)) (insort_key f x zs)"
      by simp
    moreover from False have "f z < f x" by simp
    ultimately show ?thesis using False Cons.prems(1) by (auto simp: set_insort_key)
  qed
qed

lemma sort_key_tiebreak:
  fixes f :: "'b::linorder \<Rightarrow> 'a::linorder"
  shows "sorted_wrt (<) xs \<Longrightarrow>
    sorted_wrt (\<lambda>a b. f a < f b \<or> (f a = f b \<and> a < b)) (sort_key f xs)"
proof (induction xs)
  case Nil
  show ?case by simp
next
  case (Cons x xs)
  then have "sorted_wrt (\<lambda>a b. f a < f b \<or> (f a = f b \<and> a < b)) (sort_key f xs)"
    and "\<forall>z\<in>set (sort_key f xs). x < z"
    by simp_all
  then show ?case by (simp add: insort_key_tiebreak)
qed

lemma sorted_wrt_unique:
  assumes asym: "\<And>a b. R a b \<Longrightarrow> \<not> R b a"
  shows "sorted_wrt R xs \<Longrightarrow> sorted_wrt R ys \<Longrightarrow> set xs = set ys \<Longrightarrow> xs = ys"
proof (induction xs arbitrary: ys)
  case Nil
  then show ?case by simp
next
  case (Cons x xs)
  from Cons.prems(3) obtain y ys' where ys: "ys = y # ys'" by (cases ys) auto
  have "x = y"
  proof (rule ccontr)
    assume "x \<noteq> y"
    with Cons.prems(3) ys have "x \<in> set ys'" "y \<in> set xs" by auto
    with Cons.prems(1,2) ys have "R y x" "R x y" by auto
    with asym show False by blast
  qed
  from Cons.prems(1) asym have "x \<notin> set xs" by auto
  moreover from Cons.prems(2) ys asym have "y \<notin> set ys'" by auto
  ultimately have "set xs = set ys'" using Cons.prems(3) ys \<open>x = y\<close> by auto
  with Cons.IH [of ys'] Cons.prems(1,2) ys \<open>x = y\<close> show ?case by simp
qed

lemma rotation_before_conv:
  "rotation_before data a b \<longleftrightarrow>
     rotate a data < rotate b data \<or> (rotate a data = rotate b data \<and> a < b)"
proof (cases "data = []")
  case True
  then show ?thesis by (simp add: rotation_before_def compare_rotations_def)
next
  case False
  then show ?thesis by (simp add: rotation_before_def compare_rotations_sign)
qed

lemma rotation_before_asym: "rotation_before data a b \<Longrightarrow> \<not> rotation_before data b a"
  by (auto simp: rotation_before_conv)

lemma sorted_rotations_tiebreak:
  "sorted_wrt (rotation_before data) (sorted_rotations data)"
proof (cases "data = []")
  case True
  then show ?thesis by (simp add: sorted_rotations_def sort_cmp_def)
next
  case False
  have "sorted_wrt (<) [0..<length data]" by simp
  from sort_key_tiebreak [OF this, of "\<lambda>i. rotate i data"] False
  show ?thesis
    by (simp add: sorted_rotations_sort_key rotation_before_conv [abs_def])
qed

lemma sorted_rotations_set: "set (sorted_rotations data) = {0..<length data}"
proof (cases "data = []")
  case True
  then show ?thesis by (simp add: sorted_rotations_def sort_cmp_def)
next
  case False
  then show ?thesis by (rule sorted_rotations_perm)
qed

lemma sorted_rotations_unique:
  assumes "sorted_wrt (rotation_before data) ind" and "set ind = {0..<length data}"
  shows "ind = sorted_rotations data"
  using assms sorted_rotations_tiebreak [of data] sorted_rotations_set [of data]
  by (intro sorted_wrt_unique [of "rotation_before data"]) (auto dest: rotation_before_asym)

lemma perform_bwt_fst:
  "fst (perform_burrows_wheeler_transform data)
    = map (\<lambda>i. if i > 0 then data ! (i - 1) else last data) (sorted_rotations data)"
proof (cases "data = []")
  case True
  then show ?thesis
    by (simp add: perform_burrows_wheeler_transform_def sorted_rotations_def sort_cmp_def)
next
  case False
  from perform_bwt_spec [OF False] sorted_rotations_set [of data] show ?thesis
    by (auto simp: last_rotate)
qed

section \<open>The container\<close>

lemma length_to_bytes4: "to_bytes4 v = Inr header \<Longrightarrow> length header = 4"
  by (auto simp: to_bytes4_def split: if_splits)

lemma to_bytes4_total: "0 \<le> v \<Longrightarrow> v < 2 ^ 32 \<Longrightarrow> \<exists>header. to_bytes4 v = Inr header"
  by (simp add: to_bytes4_def)

lemma perform_bwt_index:
  "0 \<le> snd (perform_burrows_wheeler_transform data)
   \<and> snd (perform_burrows_wheeler_transform data) \<le> int (length data)"
proof (cases "data = []")
  case True
  then show ?thesis by (simp add: perform_burrows_wheeler_transform_def)
next
  case False
  from perform_bwt_spec [OF False] show ?thesis by auto
qed

text \<open>The three transforms never fail one after the other.\<close>

lemma pipeline_total:
  "\<exists>mtf_data rle_data.
     perform_move_to_front_transform (fst (perform_burrows_wheeler_transform data)) = Inr mtf_data
     \<and> perform_run_length_encoding mtf_data = Inr rle_data"
proof -
  from perform_mtf_inverse [of "fst (perform_burrows_wheeler_transform data)"]
  obtain ranks where ranks:
    "perform_move_to_front_transform (fst (perform_burrows_wheeler_transform data)) = Inr ranks"
    "\<forall>k\<in>set ranks. 0 \<le> k \<and> k < 256"
    by blast
  from perform_rle_inverse [OF ranks(2)] ranks(1) show ?thesis by blast
qed

lemma compress_file_cases:
  assumes "compress_file data = Inr out"
  shows "out = replicate 4 0 @ data \<or> length out < length data"
proof (cases "length data < 512")
  case True
  with assms show ?thesis by (simp add: compress_file_def)
next
  case False
  from pipeline_total [of data] obtain mtf_data rle_data where
    stages: "perform_move_to_front_transform (fst (perform_burrows_wheeler_transform data))
        = Inr mtf_data"
      "perform_run_length_encoding mtf_data = Inr rle_data"
    by blast
  show ?thesis
  proof (cases "length rle_data + 4 \<ge> length data")
    case True
    with assms False stages show ?thesis
      by (simp add: compress_file_def split_beta)
  next
    case small: False
    with assms False stages obtain header where
      "to_bytes4 (snd (perform_burrows_wheeler_transform data)) = Inr header"
      "out = header @ rle_data"
      by (auto simp: compress_file_def split_beta split: sum.splits)
    with small length_to_bytes4 [of _ header] show ?thesis by simp
  qed
qed

lemma compress_file_total:
  assumes "length data < 2 ^ 32"
  shows "\<exists>out. compress_file data = Inr out"
proof -
  from pipeline_total [of data] obtain mtf_data rle_data where
    stages: "perform_move_to_front_transform (fst (perform_burrows_wheeler_transform data))
        = Inr mtf_data"
      "perform_run_length_encoding mtf_data = Inr rle_data"
    by blast
  from perform_bwt_index [of data] assms
  have "0 \<le> snd (perform_burrows_wheeler_transform data)"
    "snd (perform_burrows_wheeler_transform data) < 2 ^ 32"
    by (simp_all add: order_le_less_trans [where y = "int (length data)"])
  from to_bytes4_total [OF this] stages show ?thesis
    by (auto simp: compress_file_def split_beta)
qed


section \<open>A buffer of one repeated byte\<close>

lemma rotate_replicate_same: "rotate i (replicate n c) = replicate n c"
proof (induction i)
  case 0
  show ?case by simp
next
  case (Suc i)
  have "rotate1 (replicate n c) = replicate n c"
    by (cases n) (simp_all add: replicate_append_same)
  with Suc show ?case by simp
qed

lemma perform_bwt_replicate:
  assumes "0 < n"
  shows "perform_burrows_wheeler_transform (replicate n c) = (replicate n c, 0)"
proof -
  let ?data = "replicate n c"
  from assms have ne: "?data \<noteq> []" by simp
  have ind: "sorted_rotations ?data = [0..<n]"
    by (simp add: sorted_rotations_sort_key [OF ne] rotate_replicate_same sort_key_const)
  from perform_bwt_spec [OF ne] obtain p where
    p: "p < n" "[0..<n] ! p = 0"
      "perform_burrows_wheeler_transform ?data
        = (map (\<lambda>i. last (rotate i ?data)) [0..<n], int p)"
    by (auto simp: ind)
  from p(1,2) have "p = 0" by simp
  moreover from assms have "map (\<lambda>i. last (rotate i ?data)) [0..<n] = ?data"
    by (simp add: rotate_replicate_same map_replicate_const)
  ultimately show ?thesis using p(3) by simp
qed

lemma mtf_loop_front:
  "mtf_loop (replicate n b) (b # alphabet) result = Inr (result @ replicate n 0)"
proof (induction n arbitrary: result)
  case 0
  show ?case by simp
next
  case (Suc n)
  from Suc [of "result @ [0]"] show ?case
    by (simp add: list_del_def replicate_app_Cons_same)
qed

lemma perform_mtf_replicate:
  "perform_move_to_front_transform (replicate (Suc n) 0x41) = Inr (65 # replicate n 0)"
proof -
  have "list_index initial_alphabet 0x41 = Inr 65" by code_simp
  then show ?thesis
    by (simp add: perform_move_to_front_transform_def mtf_loop_front)
qed

lemma perform_rle_example:
  "perform_run_length_encoding (65 # replicate 599 0)
    = Inr [1, 0x41, 0xFF, 0, 0xFF, 0, 0xFF, 0, 0xFF, 0, 0xDB, 0]"
  by code_simp

lemma compress_file_example:
  "compress_file (replicate 600 0x41)
    = Inr [0, 0, 0, 0, 1, 0x41, 0xFF, 0, 0xFF, 0, 0xFF, 0, 0xFF, 0, 0xDB, 0]"
proof -
  have "replicate 600 (0x41 :: byte) = replicate (Suc 599) 0x41" by simp
  then have "perform_move_to_front_transform (replicate 600 0x41) = Inr (65 # replicate 599 0)"
    by (simp only: perform_mtf_replicate)
  then show ?thesis
    by (simp add: compress_file_def perform_bwt_replicate perform_rle_example to_bytes4_def)
qed

section \<open>Where the container round-trips\<close>

lemma from_bytes_to_bytes4:
  assumes "to_bytes4 v = Inr header"
  shows "from_bytes header = v"
proof -
  define c where "c = v div 256"
  define b where "b = c div 256"
  define a where "a = b div 256"
  from assms have v: "0 \<le> v" "v < 2 ^ 32"
    and header: "header = [word_of_int (v div 2 ^ 24), word_of_int (v div 2 ^ 16),
                word_of_int (v div 2 ^ 8), word_of_int v]"
    by (auto simp: to_bytes4_def split: if_splits)
  have "v div 2 ^ 8 = c" by (simp add: c_def)
  moreover have "v div 2 ^ 16 = b"
    using zdiv_zmult2_eq [of 256 v 256] by (simp add: b_def c_def)
  moreover have "v div 2 ^ 24 = a"
    using zdiv_zmult2_eq [of 256 v 256] zdiv_zmult2_eq [of 256 "v div 256" 256]
      zdiv_zmult2_eq [of "256 * 256" v 256]
    by (simp add: a_def b_def c_def)
  ultimately have header': "header = [word_of_int a, word_of_int b, word_of_int c, word_of_int v]"
    using header by simp
  from v have "0 \<le> a" "a < 256" unfolding a_def b_def c_def by simp_all
  then have "a mod 256 = a" by simp
  moreover have "b = a * 256 + b mod 256" "c = b * 256 + c mod 256" "v = c * 256 + v mod 256"
    by (simp_all add: a_def b_def c_def)
  ultimately have "((a mod 256 * 256 + b mod 256) * 256 + c mod 256) * 256 + v mod 256 = v"
    by simp
  then show ?thesis
    unfolding header' from_bytes_def by (simp add: uint_word_of_int)
qed

lemma header_nonzero:
  assumes "to_bytes4 v = Inr header" and "v \<noteq> 0"
  shows "header \<noteq> [0, 0, 0, 0]"
proof
  assume "header = [0, 0, 0, 0]"
  then have "from_bytes header = 0" by (simp add: from_bytes_def)
  with from_bytes_to_bytes4 [OF assms(1)] assms(2) show False by simp
qed

text \<open>
  Decoding undoes encoding whenever the container is a stored one, or a compressed one
  whose primary index is not 0.
\<close>

lemma decompress_compress:
  assumes out: "compress_file X = Inr out"
    and clear: "out = replicate 4 0 @ X \<or> snd (perform_burrows_wheeler_transform X) \<noteq> 0"
  shows "decompress_file out = Inr X"
proof (cases "out = replicate 4 0 @ X")
  case True
  have "replicate 4 (0 :: byte) = [0, 0, 0, 0]" by (simp add: numeral_eq_Suc)
  with True show ?thesis by (simp add: decompress_file_def)
next
  case False
  let ?T = "fst (perform_burrows_wheeler_transform X)"
  let ?idx = "snd (perform_burrows_wheeler_transform X)"
  from False clear have idx: "?idx \<noteq> 0" by simp
  from perform_mtf_inverse [of ?T] obtain ranks where ranks:
    "perform_move_to_front_transform ?T = Inr ranks"
    "\<forall>k\<in>set ranks. 0 \<le> k \<and> k < 256"
    "reverse_move_to_front_transform ranks = Inr ?T"
    by blast
  from perform_rle_inverse [OF ranks(2)] obtain rle_data where rle:
    "perform_run_length_encoding ranks = Inr rle_data"
    "decode_run_length_encoding rle_data = Inr ranks"
    by blast
  from out False have big: "\<not> length X < 512" by (auto simp: compress_file_def)
  with ranks(1) rle(1) have "compress_file X =
      (if length rle_data + 4 \<ge> length X then Inr (replicate 4 0 @ X)
       else case to_bytes4 ?idx of Inl e \<Rightarrow> Inl e | Inr h \<Rightarrow> Inr (h @ rle_data))"
    by (simp add: compress_file_def split_beta)
  with out False obtain header where header:
    "to_bytes4 ?idx = Inr header" "out = header @ rle_data"
    by (auto split: if_splits sum.splits)
  from length_to_bytes4 [OF header(1)] header(2)
  have parts: "take 4 out = header" "drop 4 out = rle_data" by simp_all
  have "decompress_file out =
      (if header = [0, 0, 0, 0] then Inr rle_data
       else reverse_burrows_wheeler_transform ?T (from_bytes header))"
    by (simp add: decompress_file_def parts rle(2) ranks(3))
  with header_nonzero [OF header(1) idx] from_bytes_to_bytes4 [OF header(1)]
  show ?thesis by (simp add: bwt_inverse)
qed

section \<open>The claims\<close>

text \<open>
  Claim C1. For every byte buffer \<open>X\<close>, decoding the container that the encoder writes
  gives back \<open>X\<close>. The code does this for every stored container and for every
  compressed container whose primary index is not 0 (lemma \<open>decompress_compress\<close>),
  but not on 600 bytes of the value 0x41: the primary index is 0, so the compressed
  container starts with the same four zero bytes as a stored one, and the decoder copies
  the twelve payload bytes out instead of decoding them.
\<close>

theorem round_trip_600_A:
  "compress_file (replicate 600 0x41)
     = Inr [0, 0, 0, 0, 1, 0x41, 0xFF, 0, 0xFF, 0, 0xFF, 0, 0xFF, 0, 0xDB, 0]
   \<and> decompress_file [0, 0, 0, 0, 1, 0x41, 0xFF, 0, 0xFF, 0, 0xFF, 0, 0xFF, 0, 0xDB, 0]
     = Inr [1, 0x41, 0xFF, 0, 0xFF, 0, 0xFF, 0, 0xFF, 0, 0xDB, 0]
   \<and> decompress_file [0, 0, 0, 0, 1, 0x41, 0xFF, 0, 0xFF, 0, 0xFF, 0, 0xFF, 0, 0xDB, 0]
     \<noteq> Inr (replicate 600 0x41)"
proof -
  have "decompress_file [0, 0, 0, 0, 1, 0x41, 0xFF, 0, 0xFF, 0, 0xFF, 0, 0xFF, 0, 0xDB, 0]
      = Inr [1, 0x41, 0xFF, 0, 0xFF, 0, 0xFF, 0, 0xFF, 0, 0xDB, 0]"
    by (simp add: decompress_file_def)
  moreover have "length [1, 0x41, 0xFF, 0, 0xFF, 0, 0xFF, 0, 0xFF, 0, 0xDB, 0 :: byte]
      \<noteq> length (replicate 600 (0x41 :: byte))"
    by simp
  then have "[1, 0x41, 0xFF, 0, 0xFF, 0, 0xFF, 0, 0xFF, 0, 0xDB, 0] \<noteq> replicate 600 (0x41 :: byte)"
    by (metis (no_types))
  ultimately show ?thesis by (simp only: compress_file_example sum.inject simp_thms)
qed

text \<open>
  Claim C2. For every byte buffer \<open>X\<close>, the empty and the single-byte buffer included,
  the block-sort inverse applied to the transformed buffer and the primary index that
  the forward transform returns gives back exactly \<open>X\<close>.
\<close>

theorem bwt_round_trip:
  "reverse_burrows_wheeler_transform (fst (perform_burrows_wheeler_transform X))
     (snd (perform_burrows_wheeler_transform X)) = Inr X"
  by (rule bwt_inverse)

theorem bwt_round_trip_witness:
  "reverse_burrows_wheeler_transform (fst (perform_burrows_wheeler_transform [98, 97, 98, 97]))
     (snd (perform_burrows_wheeler_transform [98, 97, 98, 97])) = Inr [98, 97, 98, 97]
   \<and> reverse_burrows_wheeler_transform (fst (perform_burrows_wheeler_transform []))
     (snd (perform_burrows_wheeler_transform [])) = Inr []
   \<and> reverse_burrows_wheeler_transform (fst (perform_burrows_wheeler_transform [7]))
     (snd (perform_burrows_wheeler_transform [7])) = Inr [7]"
  using bwt_round_trip [of "[98, 97, 98, 97]"] bwt_round_trip [of "[]"] bwt_round_trip [of "[7]"]
  by simp

text \<open>
  Claim C3. For every byte buffer \<open>X\<close>, the move-to-front transform returns a rank
  stream, and the inverse transform applied to that stream (both starting from the
  fresh alphabet 0..255) returns exactly \<open>X\<close>.
\<close>

theorem mtf_round_trip:
  "\<exists>ranks. perform_move_to_front_transform X = Inr ranks
     \<and> reverse_move_to_front_transform ranks = Inr X"
  using perform_mtf_inverse [of X] by blast

text \<open>
  Claim C4. For every integer stream \<open>S\<close> whose values all lie in [0, 255], the run
  encoder returns a byte stream, and the run decoder applied to it returns exactly \<open>S\<close>.
\<close>

theorem rle_round_trip:
  "\<forall>x\<in>set S. 0 \<le> x \<and> x < 256 \<Longrightarrow>
   \<exists>enc. perform_run_length_encoding S = Inr enc \<and> decode_run_length_encoding enc = Inr S"
  by (rule perform_rle_inverse)

theorem rle_round_trip_witness:
  "\<exists>enc. perform_run_length_encoding [1, 1, 1, 1, 2, 3, 3, 255, 255, 255, 0] = Inr enc
          \<and> decode_run_length_encoding enc = Inr [1, 1, 1, 1, 2, 3, 3, 255, 255, 255, 0]"
  using rle_round_trip [of "[1, 1, 1, 1, 2, 3, 3, 255, 255, 255, 0]"] by simp

text \<open>
  Claim C5, as amended. The block-sort inverse fails with \<open>InvalidIndex\<close> exactly when
  the buffer is not empty and the primary index is outside [0, n), \<open>n\<close> the length of
  the buffer (so index \<open>n\<close> on an \<open>n\<close>-byte buffer fails); it fails in no other way; and
  on the empty buffer it returns the empty buffer whatever index is supplied.
\<close>

theorem reverse_bwt_invalid_index:
  "(reverse_burrows_wheeler_transform T idx = Inl InvalidIndex
      \<longleftrightarrow> T \<noteq> [] \<and> (idx < 0 \<or> int (length T) \<le> idx))
   \<and> (\<forall>e. reverse_burrows_wheeler_transform T idx = Inl e \<longrightarrow> e = InvalidIndex)
   \<and> (T = [] \<longrightarrow> reverse_burrows_wheeler_transform T idx = Inr [])"
proof (cases "T \<noteq> [] \<and> 0 \<le> idx \<and> idx < int (length T)")
  case True
  with reverse_bwt_total [of T idx] show ?thesis by auto
next
  case False
  then show ?thesis by (auto simp: reverse_bwt_unfold)
qed

theorem reverse_bwt_invalid_index_witness:
  "reverse_burrows_wheeler_transform [1, 2] 2 = Inl InvalidIndex
   \<and> reverse_burrows_wheeler_transform [] 2 = Inr []"
  using reverse_bwt_invalid_index [of "[1, 2]" 2] reverse_bwt_invalid_index [of "[]" 2]
  by simp

text \<open>
  The claim as it was stated fails on the empty buffer: with the non-zero index 5 the
  inverse returns the empty buffer and raises nothing.
\<close>

theorem reverse_bwt_empty_counterexample:
  "reverse_burrows_wheeler_transform [] 5 = Inr []"
  by (simp add: reverse_burrows_wheeler_transform_def)

text \<open>
  Claim C6. The run decoder fails exactly when the stream ends mid-record, that is when
  it consists of complete records followed by a repeat header with no value byte or by a
  raw header that announces more literal bytes than remain; the failure is then
  \<open>TruncatedData\<close> and the decoder fails in no other way. Otherwise the stream is a
  sequence of complete records and the decoder returns their expansions in order: the
  value repeated for a repeat record, the literals verbatim for a raw record.
\<close>

theorem decode_run_length_encoding_cases:
  "(decode_run_length_encoding S = Inl TruncatedData \<longleftrightarrow>
      (\<exists>recs rem. list_all well_formed recs \<and> S = concat (map frame recs) @ rem
         \<and> ends_mid_record rem))
   \<and> (\<forall>e. decode_run_length_encoding S = Inl e \<longrightarrow> e = TruncatedData)
   \<and> (decode_run_length_encoding S = Inr out \<longleftrightarrow>
      (\<exists>recs. list_all well_formed recs \<and> S = concat (map frame recs)
         \<and> out = concat (map expand recs)))"
proof -
  from records_exist [of S] obtain recs rem where
    recs: "list_all well_formed recs" "S = concat (map frame recs) @ rem"
      "rem = [] \<or> ends_mid_record rem" by blast
  have whole: "decode_run_length_encoding S = Inr (concat (map expand recs))" if "rem = []"
    using that recs decode_frames [of recs] by simp
  have broken: "decode_run_length_encoding S = Inl TruncatedData" if "ends_mid_record rem"
    using that recs decode_frames_truncated [of recs rem] by simp
  have "decode_run_length_encoding S = Inl TruncatedData \<longleftrightarrow>
      (\<exists>recs rem. list_all well_formed recs \<and> S = concat (map frame recs) @ rem
         \<and> ends_mid_record rem)"
    using recs whole broken by (auto simp: decode_frames_truncated)
  moreover have "\<forall>e. decode_run_length_encoding S = Inl e \<longrightarrow> e = TruncatedData"
    using recs(3) whole broken by auto
  moreover have "decode_run_length_encoding S = Inr out \<longleftrightarrow>
      (\<exists>recs. list_all well_formed recs \<and> S = concat (map frame recs)
         \<and> out = concat (map expand recs))"
    using recs whole broken by (auto simp: decode_frames)
  ultimately show ?thesis by blast
qed

theorem decode_run_length_encoding_cases_witness:
  "decode_run_length_encoding [0x83, 7, 0x02, 1, 2, 0x85] = Inl TruncatedData
   \<and> decode_run_length_encoding [0x83, 7, 0x02, 1, 2, 0x03, 9, 9] = Inl TruncatedData
   \<and> decode_run_length_encoding [0x83, 7, 0x02, 1, 2] = Inr [7, 7, 7, 1, 2]"
proof -
  let ?recs = "[Repeat 3 7, Raw [1, 2]]"
  have "list_all well_formed ?recs \<and> [0x83, 7, 0x02, 1, 2, 0x85] = concat (map frame ?recs) @ [0x85]
      \<and> ends_mid_record [0x85]"
    by (simp add: ends_mid_record_def)
  then have "decode_run_length_encoding [0x83, 7, 0x02, 1, 2, 0x85] = Inl TruncatedData"
    using decode_run_length_encoding_cases [of "[0x83, 7, 0x02, 1, 2, 0x85]"] by blast
  moreover
  have "list_all well_formed ?recs
      \<and> [0x83, 7, 0x02, 1, 2, 0x03, 9, 9] = concat (map frame ?recs) @ [0x03, 9, 9]
      \<and> ends_mid_record [0x03, 9, 9]"
    by (simp add: ends_mid_record_def)
  then have "decode_run_length_encoding [0x83, 7, 0x02, 1, 2, 0x03, 9, 9] = Inl TruncatedData"
    using decode_run_length_encoding_cases [of "[0x83, 7, 0x02, 1, 2, 0x03, 9, 9]"] by blast
  moreover
  have "list_all well_formed ?recs \<and> [0x83, 7, 0x02, 1, 2] = concat (map frame ?recs)
      \<and> [7, 7, 7, 1, 2] = concat (map expand ?recs)"
    by (simp add: numeral_3_eq_3)
  then have "decode_run_length_encoding [0x83, 7, 0x02, 1, 2] = Inr [7, 7, 7, 1, 2]"
    using decode_run_length_encoding_cases [of "[0x83, 7, 0x02, 1, 2]" "[7, 7, 7, 1, 2]"] by blast
  ultimately show ?thesis by blast
qed

text \<open>
  Claim C7. For every byte buffer \<open>X\<close>, what the encoder writes is at most four bytes
  longer than \<open>X\<close>: a buffer shorter than 512 bytes is stored as four zero bytes and the
  bytes themselves, and any output is either that stored form or strictly shorter than
  \<open>X\<close>. The encoder does write an output for every buffer shorter than \<open>2 ^ 32\<close> bytes.
\<close>

theorem compress_file_length:
  "(\<forall>out. compress_file X = Inr out \<longrightarrow>
       (out = replicate 4 0 @ X \<or> length out < length X) \<and> length out \<le> length X + 4)
   \<and> (length X < 512 \<longrightarrow> compress_file X = Inr (replicate 4 0 @ X))
   \<and> (length X < 2 ^ 32 \<longrightarrow> (\<exists>out. compress_file X = Inr out))"
proof -
  have "(out = replicate 4 0 @ X \<or> length out < length X) \<and> length out \<le> length X + 4"
    if "compress_file X = Inr out" for out
    using compress_file_cases [OF that] by auto
  moreover have "compress_file X = Inr (replicate 4 0 @ X)" if "length X < 512"
    using that by (simp add: compress_file_def)
  moreover have "\<exists>out. compress_file X = Inr out" if "length X < 2 ^ 32"
    using that by (rule compress_file_total)
  ultimately show ?thesis by blast
qed

theorem compress_file_length_witness:
  "compress_file [1, 2, 3] = Inr [0, 0, 0, 0, 1, 2, 3]
   \<and> (\<exists>out. compress_file (replicate 600 0x41) = Inr out \<and> length out \<le> 604)"
proof -
  have four: "replicate 4 (0 :: byte) = [0, 0, 0, 0]" by (simp add: numeral_eq_Suc)
  have "length [1, 2, 3 :: byte] < 512" by simp
  from compress_file_length [of "[1, 2, 3]", THEN conjunct2, THEN conjunct1, THEN mp, OF this]
  have small: "compress_file [1, 2, 3] = Inr [0, 0, 0, 0, 1, 2, 3]"
    by (simp only: four append.simps)
  have "length (replicate 600 (0x41 :: byte)) < 2 ^ 32" by simp
  from compress_file_length [of "replicate 600 0x41", THEN conjunct2, THEN conjunct2, THEN mp,
    OF this]
  obtain out where out: "compress_file (replicate 600 0x41) = Inr out" ..
  from compress_file_length [of "replicate 600 0x41", THEN conjunct1, THEN spec, THEN mp,
    OF out]
  have "length out \<le> length (replicate 600 (0x41 :: byte)) + 4" by (rule conjunct2)
  then have "length out \<le> 604" by simp
  with out small show ?thesis by blast
qed

text \<open>
  Claim C8, as amended. On 600 bytes of the single value 0x41 the block-sort transform
  leaves 600 copies of 0x41, with primary index 0; the move-to-front transform yields 65
  followed by 599 zeros; the run encoder yields the raw record \<open>01 41\<close>, four repeat
  records of header \<open>0x80 | 127\<close> and a last repeat record of header \<open>0x80 | 91\<close>, each
  with value 0; and the encoder takes compressed mode, writing the four bytes of index 0
  and these twelve bytes.
\<close>

theorem single_value_600:
  "perform_burrows_wheeler_transform (replicate 600 0x41) = (replicate 600 0x41, 0)
   \<and> perform_move_to_front_transform (replicate 600 0x41) = Inr (65 # replicate 599 0)
   \<and> perform_run_length_encoding (65 # replicate 599 0)
       = Inr [1, 0x41, 0x80 OR 127, 0, 0x80 OR 127, 0, 0x80 OR 127, 0, 0x80 OR 127, 0,
              0x80 OR 91, 0]
   \<and> compress_file (replicate 600 0x41)
       = Inr [0, 0, 0, 0, 1, 0x41, 0x80 OR 127, 0, 0x80 OR 127, 0, 0x80 OR 127, 0,
              0x80 OR 127, 0, 0x80 OR 91, 0]"
proof -
  have "replicate 600 (0x41 :: byte) = replicate (Suc 599) 0x41" by simp
  then have "perform_move_to_front_transform (replicate 600 0x41) = Inr (65 # replicate 599 0)"
    by (simp only: perform_mtf_replicate)
  moreover have "(0x80 OR 127 :: byte) = 0xFF" "(0x80 OR 91 :: byte) = 0xDB" by simp_all
  ultimately show ?thesis
    by (simp only: perform_bwt_replicate [of 600, simplified] perform_rle_example
          compress_file_example simp_thms)
qed

text \<open>
  The claim as it was stated fails at its second step: the first byte is at position
  65 of the fresh alphabet, so the rank stream does not consist of 600 zeros.
\<close>

theorem single_value_600_counterexample:
  "perform_move_to_front_transform (replicate 600 0x41) \<noteq> Inr (replicate 600 0)"
proof -
  have "replicate 600 (0x41 :: byte) = replicate (Suc 599) 0x41"
    and "replicate 600 (0 :: int) = 0 # replicate 599 0"
    by (simp_all add: replicate_Suc [symmetric] del: replicate_Suc)
  then show ?thesis by (simp only: perform_mtf_replicate) simp
qed

text \<open>
  Claim C9. The rotation sort is deterministic: the sorted index list is ordered by
  rotation, equal rotations by ascending original rotation index; it is the only
  arrangement of the indices 0..n-1 that is ordered so; and the transformed buffer and
  the primary index are read off it (the byte before each rotation, and the position of
  rotation 0).
\<close>

theorem bwt_deterministic:
  "sorted_wrt (rotation_before data) (sorted_rotations data)
   \<and> set (sorted_rotations data) = {0..<length data}
   \<and> (\<forall>ind. sorted_wrt (rotation_before data) ind \<and> set ind = {0..<length data}
          \<longrightarrow> ind = sorted_rotations data)
   \<and> fst (perform_burrows_wheeler_transform data)
        = map (\<lambda>i. if i > 0 then data ! (i - 1) else last data) (sorted_rotations data)
   \<and> (data \<noteq> [] \<longrightarrow> (\<exists>p<length data. sorted_rotations data ! p = 0
          \<and> snd (perform_burrows_wheeler_transform data) = int p))"
proof -
  have "\<exists>p<length data. sorted_rotations data ! p = 0
      \<and> snd (perform_burrows_wheeler_transform data) = int p" if "data \<noteq> []"
    using perform_bwt_spec [OF that] by auto
  then show ?thesis
    using sorted_rotations_tiebreak [of data] sorted_rotations_set [of data]
      sorted_rotations_unique [of data] perform_bwt_fst [of data]
    by blast
qed

theorem bwt_deterministic_witness:
  "sorted_rotations [98, 97, 98, 97] = [1, 3, 0, 2]"
proof -
  have ordered: "sorted_wrt (rotation_before [98, 97, 98, 97]) [1, 3, 0, 2]"
    by code_simp
  have all: "set [1, 3, 0, 2] = {0..<length [98, 97, 98, 97 :: byte]}"
    by code_simp
  note unique = bwt_deterministic [of "[98, 97, 98, 97]", THEN conjunct2, THEN conjunct2,
    THEN conjunct1, THEN spec, of "[1, 3, 0, 2]", THEN mp]
  from unique [OF conjI [OF ordered all]] show ?thesis by (rule sym)
qed

text \<open>
  Claim C10. Every integer in the list returned by the run decoder lies in [0, 255], so
  whenever the run decoder succeeds on a byte stream, the move-to-front inverse applied
  to its result succeeds: neither of its two index checks can fail in the decoding
  pipeline.
\<close>

theorem decoded_ranks_accepted:
  "decode_run_length_encoding S = Inr ranks \<Longrightarrow>
   (\<forall>k\<in>set ranks. 0 \<le> k \<and> k < 256)
   \<and> (\<exists>bwt_data. reverse_move_to_front_transform ranks = Inr bwt_data)"
  using decode_range [of S ranks] reverse_mtf_total [of ranks] by blast

theorem decoded_ranks_accepted_witness:
  "decode_run_length_encoding [0x83, 7, 0x02, 1, 2] = Inr [7, 7, 7, 1, 2]
   \<and> (\<exists>bwt_data. reverse_move_to_front_transform [7, 7, 7, 1, 2] = Inr bwt_data)"
proof -
  have "decode_run_length_encoding [0x83, 7, 0x02, 1, 2] = Inr [7, 7, 7, 1, 2]"
    by code_simp
  with decoded_ranks_accepted [OF this] show ?thesis by blast
qed

end
